theory Spec2Isabelle
  imports Main
begin

section \<open>Python string primitives\<close>

text \<open>
  Python strings are sequences of code points; here a \<^typ>\<open>char\<close> stands for one code
  point below 256, so a \<^typ>\<open>string\<close> is a Python \<^verbatim>\<open>str\<close> over that range and
  \<^const>\<open>length\<close> is \<^verbatim>\<open>len\<close>. Within this range the digits of \<^verbatim>\<open>\d\<close> are
  exactly \<^verbatim>\<open>0\<close> to \<^verbatim>\<open>9\<close>, and the white space of \<^verbatim>\<open>str.strip\<close>,
  \<^verbatim>\<open>str.isspace\<close> and \<^verbatim>\<open>\s\<close> is 9 to 13, 28 to 32, 133 and 160.
\<close>

abbreviation NL :: char where "NL \<equiv> CHR 0x0A"
abbreviation CR :: char where "CR \<equiv> CHR 0x0D"

definition is_digit :: "char \<Rightarrow> bool" where
  "is_digit c = (c \<in> set ''0123456789'')"

definition is_space :: "char \<Rightarrow> bool" where
  "is_space c =
     (let n = (of_char c :: nat)
      in (9 \<le> n \<and> n \<le> 13) \<or> (28 \<le> n \<and> n \<le> 32) \<or> n = 133 \<or> n = 160)"

text \<open>The class \<^verbatim>\<open>[\x00-\x09\x0B\x0C\x0E-\x1F\x7F]\<close> of both sanitizers.\<close>

definition is_control :: "char \<Rightarrow> bool" where
  "is_control c =
     (let n = (of_char c :: nat)
      in n \<le> 9 \<or> n = 11 \<or> n = 12 \<or> (14 \<le> n \<and> n \<le> 31) \<or> n = 127)"

definition lstrip :: "string \<Rightarrow> string" where
  "lstrip s = dropWhile is_space s"

definition rstrip :: "string \<Rightarrow> string" where
  "rstrip s = rev (dropWhile is_space (rev s))"

definition strip :: "string \<Rightarrow> string" where
  "strip s = rstrip (lstrip s)"

text \<open>\<^verbatim>\<open>s.lstrip("\n")\<close>: only the given character is removed.\<close>

definition lstrip_chr :: "char \<Rightarrow> string \<Rightarrow> string" where
  "lstrip_chr d s = dropWhile (\<lambda>c. c = d) s"

text \<open>\<^verbatim>\<open>s.split(d)\<close> for a one-character separator: never the empty list.\<close>

fun split_chr :: "char \<Rightarrow> string \<Rightarrow> string list" where
  "split_chr d [] = [[]]"
| "split_chr d (c # cs) =
     (if c = d then [] # split_chr d cs
      else (case split_chr d cs of
              [] \<Rightarrow> [[c]]
            | r # rs \<Rightarrow> (c # r) # rs))"

text \<open>\<^verbatim>\<open>sep.join(xs)\<close>.\<close>

fun join :: "string \<Rightarrow> string list \<Rightarrow> string" where
  "join sep [] = []"
| "join sep [x] = x"
| "join sep (x # y # ys) = x @ sep @ join sep (y # ys)"

fun startswith :: "string \<Rightarrow> string \<Rightarrow> bool" where
  "startswith s [] = True"
| "startswith [] (p # ps) = False"
| "startswith (c # cs) (p # ps) = (c = p \<and> startswith cs ps)"

text \<open>
  \<^verbatim>\<open>s.replace(old, new)\<close>: the occurrences of \<^verbatim>\<open>old\<close> are found from the left and do
  not overlap; the text put in is not searched again. An empty \<^verbatim>\<open>old\<close> matches
  before every character and at the end.
\<close>

function replace_ne :: "string \<Rightarrow> string \<Rightarrow> string \<Rightarrow> string" where
  "replace_ne old new [] = []"
| "replace_ne old new (c # cs) =
     (if old \<noteq> [] \<and> startswith (c # cs) old
      then new @ replace_ne old new (drop (length old) (c # cs))
      else c # replace_ne old new cs)"
  by pat_completeness auto
termination
  by (relation "measure (\<lambda>(old, new, s). length s)") auto

definition replace :: "string \<Rightarrow> string \<Rightarrow> string \<Rightarrow> string" where
  "replace old new s =
     (if old = [] then new @ concat (map (\<lambda>c. c # new) s) else replace_ne old new s)"

text \<open>\<^verbatim>\<open>str(n)\<close> of a natural number, as the f-strings of the source print a counter.\<close>

definition digit_char :: "nat \<Rightarrow> char" where
  "digit_char d = ''0123456789'' ! d"

fun show_nat :: "nat \<Rightarrow> string" where
  "show_nat n = (if n < 10 then [digit_char n] else show_nat (n div 10) @ [digit_char (n mod 10)])"

declare show_nat.simps [simp del]

text \<open>\<^verbatim>\<open>re.match(r'^\d+\.', s) is not None\<close>: one digit or more, then a dot.\<close>

definition match_numbered :: "string \<Rightarrow> bool" where
  "match_numbered s =
     (takeWhile is_digit s \<noteq> [] \<and>
      (case dropWhile is_digit s of [] \<Rightarrow> False | c # _ \<Rightarrow> c = CHR ''.''))"

text \<open>
  \<^verbatim>\<open>re.match(r'^\d+\.$', s)\<close>: digits and a dot up to the end of the string, where
  \<^verbatim>\<open>$\<close> also matches before one final line feed.
\<close>

definition match_number_only :: "string \<Rightarrow> bool" where
  "match_number_only s =
     (takeWhile is_digit s \<noteq> [] \<and>
      (dropWhile is_digit s = ''.'' \<or> dropWhile is_digit s = [CHR ''.'', NL]))"

section \<open>Generic documents\<close>

text \<open>
  What \<^verbatim>\<open>json.loads\<close> returns: the dynamically shaped tree that the generator walks.
  A mapping is the list of its items in insertion order. Numbers are integers; numbers
  with a fraction are outside this model.
\<close>

datatype json =
    JNull
  | JBool bool
  | JInt int
  | JStr string
  | JList "json list"
  | JDict "(string \<times> json) list"

definition is_str :: "json \<Rightarrow> bool" where
  "is_str v = (case v of JStr _ \<Rightarrow> True | _ \<Rightarrow> False)"

section \<open>The activity normalizer (app/utils/validation.py)\<close>

text \<open>The non-blank lines of a text, trimmed: the comprehension used three times.\<close>

definition stripped_lines :: "string \<Rightarrow> string list" where
  "stripped_lines s = filter (\<lambda>l. l \<noteq> []) (map strip (split_chr NL s))"

definition validate_activity_format :: "string \<Rightarrow> bool" where
  "validate_activity_format activity =
     (if activity = [] then False
      else let lines = stripped_lines activity
           in if lines = [] then False
              else list_all (\<lambda>b. b) (map match_numbered lines))"

text \<open>
  The first branch of \<^verbatim>\<open>format_activity\<close>: the loop over the enumerated lines, with
  the text built so far as the accumulator.
\<close>

fun relines :: "nat \<Rightarrow> string list \<Rightarrow> string \<Rightarrow> string" where
  "relines i [] acc = acc"
| "relines i (line # rest) acc =
     (let stripped = strip line
      in if stripped \<noteq> []
         then let acc1 = (if match_numbered stripped \<and> i > 0
                          then acc @ [NL] @ stripped
                          else acc @ stripped);
                  acc2 = (if match_number_only stripped then acc1 @ '' '' else acc1)
              in relines (Suc i) rest acc2
         else relines (Suc i) rest acc)"

text \<open>\<^verbatim>\<open>for i in range(10, 0, -1): p = p.replace(f"{i}. ", f"\n{i}. ")\<close>\<close>

definition renumber_breaks :: "string \<Rightarrow> string" where
  "renumber_breaks p =
     fold (\<lambda>i acc. replace (show_nat i @ ''. '') ([NL] @ show_nat i @ ''. '') acc)
       (rev [1..<11]) p"

text \<open>The second branch: joining wrapped lines to the step they continue.\<close>

fun merge_lines :: "string list \<Rightarrow> string list \<Rightarrow> string \<Rightarrow> string list" where
  "merge_lines [] merged current = (if current \<noteq> [] then merged @ [current] else merged)"
| "merge_lines (line # rest) merged current =
     (if match_numbered line
      then merge_lines rest (if current \<noteq> [] then merged @ [current] else merged) line
      else merge_lines rest merged
             (if current \<noteq> [] then current @ '' '' @ line else line))"

text \<open>Numbering the steps that carry no number of their own.\<close>

fun number_lines :: "string list \<Rightarrow> string list \<Rightarrow> nat \<Rightarrow> string list" where
  "number_lines [] numbered counter = numbered"
| "number_lines (line # rest) numbered counter =
     (if match_numbered line
      then number_lines rest (numbered @ [line]) counter
      else number_lines rest (numbered @ [show_nat counter @ ''. '' @ line]) (counter + 1))"

text \<open>
  The body of \<^verbatim>\<open>format_activity\<close> once the argument is a string: line endings,
  control characters, then one of the two branches.
\<close>

definition clean_text :: "string \<Rightarrow> string" where
  "clean_text s =
     filter (\<lambda>c. \<not> is_control c) (replace [CR] [NL] (replace [CR, NL] [NL] s))"

definition format_text :: "string \<Rightarrow> string" where
  "format_text s =
     (let activity = clean_text s
      in if validate_activity_format activity
         then let processed = renumber_breaks (relines 0 (split_chr NL activity) [])
              in lstrip_chr NL (replace [NL, NL] [NL] processed)
         else let lines = stripped_lines activity;
                  merged = merge_lines lines [] [];
                  numbered = number_lines merged [] 1
              in join [NL] numbered)"

text \<open>
  The coercion at the head of \<^verbatim>\<open>format_activity\<close>. \<open>py_str\<close> is Python's \<^verbatim>\<open>str()\<close>
  on a value that is not a string.
\<close>

definition str_of :: "(json \<Rightarrow> string) \<Rightarrow> json \<Rightarrow> string" where
  "str_of py_str v = (case v of JStr s \<Rightarrow> s | _ \<Rightarrow> py_str v)"

definition coerce_activity :: "(json \<Rightarrow> string) \<Rightarrow> json \<Rightarrow> string" where
  "coerce_activity py_str activity =
     (case activity of
        JList items \<Rightarrow>
          (if list_all is_str items
           then join [NL] (filter (\<lambda>s. s \<noteq> [])
                  (map (\<lambda>item. strip (case item of JStr s \<Rightarrow> s | _ \<Rightarrow> [])) items))
           else join [NL] (filter (\<lambda>s. s \<noteq> [])
                  (map (\<lambda>item. strip (str_of py_str item)) items)))
      | JStr s \<Rightarrow> s
      | _ \<Rightarrow> py_str activity)"

definition format_activity :: "(json \<Rightarrow> string) \<Rightarrow> json \<Rightarrow> string" where
  "format_activity py_str activity = format_text (coerce_activity py_str activity)"

text \<open>
  Python's \<^verbatim>\<open>str()\<close> on the values of a generic document, for closed examples: the
  functions above and below take the rendering as an argument and so do not depend on it.
\<close>

definition show_int :: "int \<Rightarrow> string" where
  "show_int i = (if i < 0 then ''-'' @ show_nat (nat (- i)) else show_nat (nat i))"

definition hex_char :: "nat \<Rightarrow> char" where
  "hex_char d = ''0123456789abcdef'' ! d"

definition repr_char :: "char \<Rightarrow> char \<Rightarrow> string" where
  "repr_char q c =
     (let n = (of_char c :: nat)
      in if c = q \<or> c = CHR 0x5C then [CHR 0x5C, c]
         else if c = CHR 0x09 then [CHR 0x5C, CHR ''t'']
         else if c = NL then [CHR 0x5C, CHR ''n'']
         else if c = CR then [CHR 0x5C, CHR ''r'']
         else if n < 32 \<or> n = 127 \<or> (128 \<le> n \<and> n \<le> 160) \<or> n = 173
         then [CHR 0x5C, CHR ''x'', hex_char (n div 16), hex_char (n mod 16)]
         else [c])"

definition repr_str :: "string \<Rightarrow> string" where
  "repr_str s =
     (let q = (if CHR 0x27 \<in> set s \<and> CHR 0x22 \<notin> set s then CHR 0x22 else CHR 0x27)
      in [q] @ concat (map (repr_char q) s) @ [q])"

fun python_repr :: "json \<Rightarrow> string" where
  "python_repr JNull = ''None''"
| "python_repr (JBool b) = (if b then ''True'' else ''False'')"
| "python_repr (JInt i) = show_int i"
| "python_repr (JStr s) = repr_str s"
| "python_repr (JList xs) = ''['' @ join '', '' (map python_repr xs) @ '']''"
| "python_repr (JDict kvs) =
     ''{'' @ join '', '' (map (\<lambda>(k, v). repr_str k @ '': '' @ python_repr v) kvs) @ ''}''"

definition python_str :: "json \<Rightarrow> string" where
  "python_str v = (case v of JStr s \<Rightarrow> s | _ \<Rightarrow> python_repr v)"

section \<open>The specification's normal form of an activity\<close>

text \<open>
  Follows the specification's words, not the code: a text is normalized when every line
  matches \<^verbatim>\<open>^\d+\.\s\<close> and the step numbers are 1, 2, 3, ... in this order. A blank
  line matches nothing, so there is none.
\<close>

definition match_step :: "string \<Rightarrow> bool" where
  "match_step l =
     (takeWhile is_digit l \<noteq> [] \<and>
      (case dropWhile is_digit l of
         c # d # _ \<Rightarrow> c = CHR ''.'' \<and> is_space d
       | _ \<Rightarrow> False))"

definition digit_val :: "char \<Rightarrow> nat" where
  "digit_val c = of_char c - 48"

definition step_number :: "string \<Rightarrow> nat" where
  "step_number l = foldl (\<lambda>n c. 10 * n + digit_val c) 0 (takeWhile is_digit l)"

definition spec_normalized :: "string \<Rightarrow> bool" where
  "spec_normalized s =
     (let ls = split_chr NL s
      in list_all match_step ls \<and> map step_number ls = [1..<Suc (length ls)])"

definition eleven_steps :: string where
  "eleven_steps = join [NL]
     [''1. a'', ''2. b'', ''3. c'', ''4. d'', ''5. e'', ''6. f'',
      ''7. g'', ''8. h'', ''9. i'', ''10. j'', ''11. k'']"

text \<open>A step of the repaired text: not empty, and on one line.\<close>

definition step_ok :: "string \<Rightarrow> bool" where
  "step_ok l = (l \<noteq> [] \<and> NL \<notin> set l)"

text \<open>The steps the second branch of \<^verbatim>\<open>format_activity\<close> joins.\<close>

definition repair_steps :: "string \<Rightarrow> string list" where
  "repair_steps s = number_lines (merge_lines (stripped_lines s) [] []) [] 1"

section \<open>Python operations on generic documents\<close>

text \<open>
  Truth value, \<^verbatim>\<open>key in v\<close>, \<^verbatim>\<open>v[key]\<close> for a string key and \<^verbatim>\<open>for x in v\<close>, on the
  values \<^verbatim>\<open>json.loads\<close> can return. \<open>None\<close> is the \<^verbatim>\<open>TypeError\<close> or \<^verbatim>\<open>KeyError\<close>
  Python raises.
\<close>

fun contains :: "string \<Rightarrow> string \<Rightarrow> bool" where
  "contains [] sub = (sub = [])"
| "contains (c # cs) sub = (startswith (c # cs) sub \<or> contains cs sub)"

text \<open>\<^verbatim>\<open>s.split(sep)[0]\<close> for a separator that is not empty.\<close>

fun before_first :: "string \<Rightarrow> string \<Rightarrow> string" where
  "before_first sep [] = []"
| "before_first sep (c # cs) = (if startswith (c # cs) sep then [] else c # before_first sep cs)"

definition truthy :: "json \<Rightarrow> bool" where
  "truthy v =
     (case v of
        JNull \<Rightarrow> False
      | JBool b \<Rightarrow> b
      | JInt i \<Rightarrow> i \<noteq> 0
      | JStr s \<Rightarrow> s \<noteq> []
      | JList xs \<Rightarrow> xs \<noteq> []
      | JDict kvs \<Rightarrow> kvs \<noteq> [])"

definition py_contains :: "json \<Rightarrow> string \<Rightarrow> bool option" where
  "py_contains v key =
     (case v of
        JDict kvs \<Rightarrow> Some (key \<in> set (map fst kvs))
      | JList xs \<Rightarrow> Some (JStr key \<in> set xs)
      | JStr s \<Rightarrow> Some (contains s key)
      | _ \<Rightarrow> None)"

definition py_getitem :: "json \<Rightarrow> string \<Rightarrow> json option" where
  "py_getitem v key = (case v of JDict kvs \<Rightarrow> map_of kvs key | _ \<Rightarrow> None)"

definition py_iter :: "json \<Rightarrow> json list option" where
  "py_iter v =
     (case v of
        JList xs \<Rightarrow> Some xs
      | JDict kvs \<Rightarrow> Some (map (\<lambda>kv. JStr (fst kv)) kvs)
      | JStr s \<Rightarrow> Some (map (\<lambda>c. JStr [c]) s)
      | _ \<Rightarrow> None)"

section \<open>The typed roadmap (app/models/weekly_roadmap.py)\<close>

text \<open>A date is its day number.\<close>

record weekly_task =
  task_name :: string
  resources :: "string list"
  time_slot :: string
  time_commitment :: string
  practice :: string

record week_plan =
  week_number :: int
  tasks :: "weekly_task list"

record monthly_roadmap =
  user_id :: "string option"
  persona_type :: string
  duration_months :: int
  requested_month :: int
  start_date :: int
  end_date :: int
  weeks :: "week_plan list"
  overall_goals :: "string list"

text \<open>
  \<^verbatim>\<open>MultiMonthRoadmap\<close> as the class declares it: the line of the field
  \<^verbatim>\<open>combined_goals\<close> is commented out in the source, so the class has six fields.
\<close>

record multi_month_roadmap =
  mm_user_id :: "string option"
  mm_persona_type :: string
  total_months :: int
  monthly_roadmaps :: "monthly_roadmap list"
  mm_start_date :: int
  mm_end_date :: int

section \<open>The collaborators of the generator\<close>

text \<open>
  What the service does not compute itself. \<open>py_str\<close> is Python's \<^verbatim>\<open>str()\<close> on a value
  that is not a string. \<open>as_str\<close> and \<open>as_int\<close> are the validation a pydantic model
  applies to a field annotated \<^verbatim>\<open>str\<close> or \<^verbatim>\<open>int\<close>: \<open>None\<close> is its
  \<^verbatim>\<open>ValidationError\<close>. \<open>tavily\<close> is the injected search client, from the query, the
  depth and the number of results to the \<^verbatim>\<open>url\<close> values of the resources it extracts;
  \<open>None\<close> when one of its calls raises. \<open>today\<close> is \<^verbatim>\<open>date.today()\<close>.
\<close>

record env =
  py_str :: "json \<Rightarrow> string"
  as_str :: "json \<Rightarrow> string option"
  as_int :: "json \<Rightarrow> int option"
  tavily :: "string \<Rightarrow> string \<Rightarrow> int \<Rightarrow> json list option"
  today :: int

text \<open>An instance for closed examples: strings and integers are accepted as they are.\<close>

definition strict_str :: "json \<Rightarrow> string option" where
  "strict_str v = (case v of JStr s \<Rightarrow> Some s | _ \<Rightarrow> None)"

definition strict_int :: "json \<Rightarrow> int option" where
  "strict_int v = (case v of JInt i \<Rightarrow> Some i | _ \<Rightarrow> None)"

definition no_results :: "string \<Rightarrow> string \<Rightarrow> int \<Rightarrow> json list option" where
  "no_results query depth max_results = Some []"

definition example_env :: env where
  "example_env =
     \<lparr>py_str = python_str, as_str = strict_str, as_int = strict_int,
      tavily = no_results, today = 0\<rparr>"

section \<open>Resource enrichment (app/services/weekly_roadmap_generator.py)\<close>

definition difficulty_level :: "int \<Rightarrow> string" where
  "difficulty_level current_month =
     (if current_month > 1
      then (if current_month \<le> 2 then ''intermediate''
            else if current_month \<le> 4 then ''advanced''
            else ''expert'')
      else '''')"

text \<open>
  \<^verbatim>\<open>task_name[:80] if task_name else ""\<close>: a slice of a string or of a list; any other
  value that is not false raises.
\<close>

definition truncate_task :: "json \<Rightarrow> json option" where
  "truncate_task tn =
     (if truthy tn
      then (case tn of
              JStr s \<Rightarrow> Some (JStr (take 80 s))
            | JList xs \<Rightarrow> Some (JList (take 80 xs))
            | _ \<Rightarrow> None)
      else Some (JStr ''''))"

definition first_item :: "json \<Rightarrow> json" where
  "first_item pr =
     (case pr of
        JList xs \<Rightarrow> (if length xs > 0 then hd xs else JStr '''')
      | _ \<Rightarrow> pr)"

definition str_val :: "json \<Rightarrow> string" where
  "str_val v = (case v of JStr s \<Rightarrow> s | _ \<Rightarrow> [])"

definition truncate_practice :: "(json \<Rightarrow> string) \<Rightarrow> json \<Rightarrow> string" where
  "truncate_practice pstr pr =
     (if truthy pr \<and> is_str pr \<and> contains (str_val pr) ''1.''
      then let first_step = (if contains (str_val pr) ''2.''
                             then before_first ''2.'' (str_val pr) else str_val pr);
               first_step1 = (if startswith first_step ''1.''
                              then strip (drop 2 first_step) else first_step)
           in take 100 first_step1
      else if truthy pr \<and> is_str pr then take 100 (str_val pr)
      else (if truthy pr then take 100 (str_of pstr pr) else []))"

text \<open>
  The query handed to the search client, or \<open>None\<close> when building it raises (the
  \<^verbatim>\<open>except\<close> of the function then returns no resource and the client is not called).
\<close>

definition build_search_query :: "(json \<Rightarrow> string) \<Rightarrow> json \<Rightarrow> json \<Rightarrow> int \<Rightarrow> string option" where
  "build_search_query pstr tn pr0 current_month =
     (let difficulty = difficulty_level current_month;
          pr = first_item pr0
      in case truncate_task tn of
           None \<Rightarrow> None
         | Some tt \<Rightarrow>
             let truncated_task = str_of pstr tt;
                 truncated_practice = truncate_practice pstr pr;
                 q1 = strip (truncated_task @ '' '' @ difficulty);
                 q2 = (if length q1 < 300
                       then strip (truncated_task @ '': '' @ truncated_practice @ '' '' @ difficulty)
                       else q1);
                 q3 = (if length q2 > 390 then take 390 q2 else q2)
             in Some q3)"

definition enrich_resources_with_web_search :: "env \<Rightarrow> json \<Rightarrow> json \<Rightarrow> int \<Rightarrow> json list" where
  "enrich_resources_with_web_search e tn pr current_month =
     (case build_search_query (py_str e) tn pr current_month of
        None \<Rightarrow> []
      | Some query \<Rightarrow>
          let search_depth = (if current_month \<le> 2 then ''basic'' else ''advanced'');
              max_results = 3 + min current_month 4
          in (case tavily e query search_depth max_results of
                None \<Rightarrow> []
              | Some urls \<Rightarrow> urls))"

section \<open>Post-validation (app/utils/validation.py)\<close>

text \<open>
  \<^verbatim>\<open>validate_monthly_roadmap\<close>. A task of a built roadmap is a model object, hence true,
  and its \<^verbatim>\<open>practice\<close> is a string, on which \<^verbatim>\<open>format_activity\<close> is
  \<^const>\<open>format_text\<close> and raises nothing; both \<^verbatim>\<open>except\<close> branches only print and
  go on, so the function has no error result. The argument \<open>None\<close> is Python's
  \<^verbatim>\<open>None\<close>.
\<close>

definition fix_practice :: "weekly_task \<Rightarrow> weekly_task" where
  "fix_practice task =
     (if practice task \<noteq> [] then task\<lparr>practice := format_text (practice task)\<rparr> else task)"

definition fix_week :: "week_plan \<Rightarrow> week_plan" where
  "fix_week week = week\<lparr>tasks := map fix_practice (tasks week)\<rparr>"

definition validate_monthly_roadmap :: "monthly_roadmap option \<Rightarrow> monthly_roadmap option" where
  "validate_monthly_roadmap roadmap =
     (case roadmap of
        None \<Rightarrow> None
      | Some r \<Rightarrow>
          (if weeks r = [] then Some r
           else Some (r\<lparr>weeks := map fix_week (weeks r)\<rparr>)))"

section \<open>The document walker (app/services/weekly_roadmap_generator.py)\<close>

text \<open>
  The failures of \<^verbatim>\<open>generate_weekly_roadmap\<close>: its two own \<^verbatim>\<open>raise\<close> statements, and
  any exception of the Python run time or of pydantic. All of them leave the function
  wrapped in the exception of its last line.
\<close>

datatype error = InvalidStructure | NoValidWeeks | RuntimeError

definition required_week_fields :: "string list" where
  "required_week_fields = [''week_number'', ''theme'', ''quests'']"

definition required_task_fields :: "string list" where
  "required_task_fields =
     [''task_type'', ''task_name'', ''time_slot'', ''time_commitment'', ''activity'']"

text \<open>
  \<^verbatim>\<open>for field in required: if field not in data: raise ...\<close>: true when the loop ends
  without raising.
\<close>

fun check_fields :: "json \<Rightarrow> string list \<Rightarrow> bool" where
  "check_fields data [] = True"
| "check_fields data (field # rest) =
     (case py_contains data field of
        Some True \<Rightarrow> check_fields data rest
      | _ \<Rightarrow> False)"

text \<open>The body of the inner \<^verbatim>\<open>try\<close>: \<open>None\<close> when it raises and the quest is skipped.\<close>

definition process_quest :: "env \<Rightarrow> int \<Rightarrow> json \<Rightarrow> weekly_task option" where
  "process_quest e current_month quest =
     (if \<not> check_fields quest required_task_fields then None
      else case (py_getitem quest ''task_name'', py_getitem quest ''activity'') of
             (Some tn, Some activity) \<Rightarrow>
               (let web_resources = enrich_resources_with_web_search e tn activity current_month;
                    formatted_activity = format_activity (py_str e) activity
                in case (as_str e tn,
                         those (map (as_str e) web_resources),
                         Option.bind (py_getitem quest ''time_slot'') (as_str e),
                         Option.bind (py_getitem quest ''time_commitment'') (as_str e)) of
                     (Some n, Some rs, Some ts, Some tc) \<Rightarrow>
                       Some \<lparr>task_name = n, resources = rs, time_slot = ts,
                             time_commitment = tc, practice = formatted_activity\<rparr>
                   | _ \<Rightarrow> None)
           | _ \<Rightarrow> None)"

fun process_quests :: "env \<Rightarrow> int \<Rightarrow> json list \<Rightarrow> weekly_task list \<Rightarrow> weekly_task list" where
  "process_quests e current_month [] processed_tasks = processed_tasks"
| "process_quests e current_month (quest # rest) processed_tasks =
     (case process_quest e current_month quest of
        Some processed_task \<Rightarrow>
          process_quests e current_month rest (processed_tasks @ [processed_task])
      | None \<Rightarrow> process_quests e current_month rest processed_tasks)"

text \<open>The body of the outer \<^verbatim>\<open>try\<close>: \<open>None\<close> when it raises and the week is skipped.\<close>

definition process_week :: "env \<Rightarrow> int \<Rightarrow> json \<Rightarrow> week_plan option" where
  "process_week e current_month week_data =
     (if \<not> check_fields week_data required_week_fields then None
      else case Option.bind (py_getitem week_data ''quests'') py_iter of
             None \<Rightarrow> None
           | Some quests \<Rightarrow>
               (let processed_tasks = process_quests e current_month quests []
                in if processed_tasks = [] then None
                   else case Option.bind (py_getitem week_data ''week_number'') (as_int e) of
                          None \<Rightarrow> None
                        | Some n \<Rightarrow> Some \<lparr>week_number = n, tasks = processed_tasks\<rparr>))"

fun process_weeks :: "env \<Rightarrow> int \<Rightarrow> json list \<Rightarrow> week_plan list \<Rightarrow> week_plan list" where
  "process_weeks e current_month [] processed_weeks = processed_weeks"
| "process_weeks e current_month (week_data # rest) processed_weeks =
     (case process_week e current_month week_data of
        Some processed_week \<Rightarrow>
          process_weeks e current_month rest (processed_weeks @ [processed_week])
      | None \<Rightarrow> process_weeks e current_month rest processed_weeks)"

text \<open>The loop over \<^verbatim>\<open>raw_goals.items()\<close>, and the three shapes of \<^verbatim>\<open>overall_goals\<close>.\<close>

fun flatten_goals :: "(string \<times> json) list \<Rightarrow> json list \<Rightarrow> json list" where
  "flatten_goals [] acc = acc"
| "flatten_goals ((goal_type, goals) # rest) acc =
     (case goals of
        JList xs \<Rightarrow> flatten_goals rest (acc @ xs)
      | JStr s \<Rightarrow> flatten_goals rest (acc @ [JStr (goal_type @ '': '' @ s)])
      | _ \<Rightarrow> flatten_goals rest acc)"

definition normalize_goals :: "json \<Rightarrow> json list" where
  "normalize_goals raw_goals =
     (case raw_goals of
        JDict kvs \<Rightarrow> flatten_goals kvs []
      | JList xs \<Rightarrow> xs
      | _ \<Rightarrow> [])"

text \<open>
  \<^verbatim>\<open>generate_weekly_roadmap\<close> from the parsed response on: \<open>Inl\<close> when the function
  raises, \<open>Inr\<close> the roadmap it returns.
\<close>

definition generate_weekly_roadmap ::
  "env \<Rightarrow> string \<Rightarrow> int \<Rightarrow> string option \<Rightarrow> int \<Rightarrow> json \<Rightarrow> error + monthly_roadmap" where
  "generate_weekly_roadmap e persona duration uid current_month response_data =
     (let start = today e + (current_month - 1) * 30;
          finish = start + 30
      in case py_contains response_data ''weeks'' of
           None \<Rightarrow> Inl RuntimeError
         | Some False \<Rightarrow> Inl InvalidStructure
         | Some True \<Rightarrow>
        (case py_contains response_data ''overall_goals'' of
           None \<Rightarrow> Inl RuntimeError
         | Some False \<Rightarrow> Inl InvalidStructure
         | Some True \<Rightarrow>
        (case Option.bind (py_getitem response_data ''weeks'') py_iter of
           None \<Rightarrow> Inl RuntimeError
         | Some week_list \<Rightarrow>
             (let processed_weeks = process_weeks e current_month week_list []
              in if processed_weeks = [] then Inl NoValidWeeks
                 else let raw_goals = (case py_getitem response_data ''overall_goals'' of
                                         Some g \<Rightarrow> g | None \<Rightarrow> JList []);
                          goals = normalize_goals raw_goals
                      in case those (map (as_str e) goals) of
                           None \<Rightarrow> Inl RuntimeError
                         | Some goal_strings \<Rightarrow>
                             (case validate_monthly_roadmap (Some
                                     \<lparr>user_id = uid, persona_type = persona,
                                      duration_months = duration,
                                      requested_month = current_month,
                                      start_date = start, end_date = finish,
                                      weeks = processed_weeks,
                                      overall_goals = goal_strings\<rparr>) of
                                Some roadmap \<Rightarrow> Inr roadmap
                              | None \<Rightarrow> Inl RuntimeError)))))"

section \<open>Multi-month aggregation (app/api/endpoints/roadmap.py)\<close>

text \<open>\<^verbatim>\<open>for goal in combined_goals: if goal not in seen: ...\<close>\<close>

fun unique_loop :: "string list \<Rightarrow> string set \<Rightarrow> string list \<Rightarrow> string list" where
  "unique_loop [] seen unique_goals = unique_goals"
| "unique_loop (goal # rest) seen unique_goals =
     (if goal \<notin> seen then unique_loop rest (insert goal seen) (unique_goals @ [goal])
      else unique_loop rest seen unique_goals)"

fun extend_goals :: "monthly_roadmap list \<Rightarrow> string list \<Rightarrow> string list" where
  "extend_goals [] combined_goals = combined_goals"
| "extend_goals (roadmap # rest) combined_goals =
     extend_goals rest (combined_goals @ overall_goals roadmap)"

definition unique_goals :: "monthly_roadmap list \<Rightarrow> string list" where
  "unique_goals validated_roadmaps = unique_loop (extend_goals validated_roadmaps []) {} []"

text \<open>
  The constructor call \<^verbatim>\<open>MultiMonthRoadmap(user_id=..., ..., combined_goals=unique_goals,
  ...)\<close>. The class declares no field \<^verbatim>\<open>combined_goals\<close> and a pydantic model ignores
  a keyword it does not declare, so the argument is not stored.
\<close>

definition MultiMonthRoadmap ::
  "string option \<Rightarrow> string \<Rightarrow> int \<Rightarrow> monthly_roadmap list \<Rightarrow> string list \<Rightarrow> int \<Rightarrow> int
     \<Rightarrow> multi_month_roadmap" where
  "MultiMonthRoadmap uid persona months roadmaps combined_goals start finish =
     \<lparr>mm_user_id = uid, mm_persona_type = persona, total_months = months,
      monthly_roadmaps = roadmaps, mm_start_date = start, mm_end_date = finish\<rparr>"

text \<open>
  The endpoint after the months have been generated: validation of each month, the
  combined goals, the aggregate. \<open>None\<close> is the \<^verbatim>\<open>IndexError\<close> of
  \<^verbatim>\<open>validated_roadmaps[0]\<close> on no month at all.
\<close>

definition combine_months ::
  "string option \<Rightarrow> string \<Rightarrow> int \<Rightarrow> monthly_roadmap list \<Rightarrow> multi_month_roadmap option" where
  "combine_months uid persona duration monthly =
     (let validated_roadmaps = List.map_filter (\<lambda>r. validate_monthly_roadmap (Some r)) monthly;
          goals = unique_goals validated_roadmaps
      in if validated_roadmaps = [] then None
         else Some (MultiMonthRoadmap uid persona duration validated_roadmaps goals
                      (start_date (hd validated_roadmaps))
                      (end_date (last validated_roadmaps))))"

section \<open>Example documents\<close>

definition example_quest :: json where
  "example_quest = JDict
     [(''task_type'', JStr ''Learn''), (''task_name'', JStr ''Read''),
      (''time_slot'', JStr ''9:00 AM''), (''time_commitment'', JStr ''2 hours/week''),
      (''activity'', JStr ''Read the book'')]"

definition example_week :: "int \<Rightarrow> json" where
  "example_week n = JDict
     [(''week_number'', JInt n), (''theme'', JStr ''Basics''),
      (''quests'', JList [example_quest])]"

definition week_without_theme :: "int \<Rightarrow> json" where
  "week_without_theme n = JDict
     [(''week_number'', JInt n), (''quests'', JList [example_quest])]"

definition four_weeks_doc :: json where
  "four_weeks_doc = JDict
     [(''overall_goals'', JList [JStr ''g'']),
      (''weeks'', JList [example_week 1, example_week 2, week_without_theme 3, example_week 4])]"

definition empty_weeks_doc :: json where
  "empty_weeks_doc = JDict [(''overall_goals'', JList [JStr ''g'']), (''weeks'', JList [])]"

definition goals_doc :: json where
  "goals_doc = JDict
     [(''short_term'', JList [JStr ''a'', JStr ''b'']), (''long_term'', JStr ''c'')]"

definition month_with_goals :: "int \<Rightarrow> string list \<Rightarrow> monthly_roadmap" where
  "month_with_goals m goals =
     \<lparr>user_id = None, persona_type = ''INTJ'', duration_months = 2, requested_month = m,
      start_date = (m - 1) * 30, end_date = (m - 1) * 30 + 30,
      weeks = [\<lparr>week_number = (m - 1) * 4 + 1,
                tasks = [\<lparr>task_name = ''Read'', resources = [], time_slot = ''9:00 AM'',
                          time_commitment = ''2 hours/week'', practice = ''1. Read''\<rparr>]\<rparr>],
      overall_goals = goals\<rparr>"

section \<open>The resilient JSON parser (app/utils/json_sanitizer.py)\<close>

abbreviation DQ :: char where "DQ \<equiv> CHR 0x22"
abbreviation BS :: char where "BS \<equiv> CHR 0x5C"

definition activity_key :: string where
  "activity_key = [DQ] @ ''activity'' @ [DQ] @ '':''"

definition endswith :: "string \<Rightarrow> string \<Rightarrow> bool" where
  "endswith s suffix = startswith (rev s) (rev suffix)"

text \<open>\<^verbatim>\<open>s.split(sep, 1)[1]\<close> where \<^verbatim>\<open>sep\<close> occurs in \<^verbatim>\<open>s\<close>: the text after its first occurrence.\<close>

fun after_first :: "string \<Rightarrow> string \<Rightarrow> string" where
  "after_first sep [] = []"
| "after_first sep (c # cs) =
     (if startswith (c # cs) sep then drop (length sep) (c # cs) else after_first sep cs)"

text \<open>
  The look-ahead \<^verbatim>\<open>(?=",|"\s*})\<close> of the pattern: the text goes on with a quote and a
  comma, or with a quote, white space and a closing brace.
\<close>

definition at_field_end :: "string \<Rightarrow> bool" where
  "at_field_end s =
     (startswith s [DQ, CHR '',''] \<or>
      (case s of
         [] \<Rightarrow> False
       | c # rest \<Rightarrow>
           c = DQ \<and> (case dropWhile is_space rest of [] \<Rightarrow> False | d # _ \<Rightarrow> d = CHR ''}'')))"

text \<open>
  The lazy group \<^verbatim>\<open>(.*?)\<close> under \<^verbatim>\<open>re.DOTALL\<close>: the shortest text after which the
  look-ahead holds, and what follows it; \<open>None\<close> when the look-ahead holds nowhere.
\<close>

fun lazy_value :: "string \<Rightarrow> (string \<times> string) option" where
  "lazy_value [] = None"
| "lazy_value (c # cs) =
     (if at_field_end (c # cs) then Some ([], c # cs)
      else (case lazy_value cs of
              None \<Rightarrow> None
            | Some (v, rest) \<Rightarrow> Some (c # v, rest)))"

text \<open>
  A match of \<^verbatim>\<open>"activity":\s*"(.*?)(?=",|"\s*})\<close> at the start of a text: the group and
  the text after the match.
\<close>

definition match_activity :: "string \<Rightarrow> (string \<times> string) option" where
  "match_activity s =
     (if startswith s activity_key
      then (case dropWhile is_space (drop (length activity_key) s) of
              [] \<Rightarrow> None
            | q # rest \<Rightarrow> (if q = DQ then lazy_value rest else None))
      else None)"

text \<open>\<^verbatim>\<open>fix_activity\<close>: what replaces a match.\<close>

definition fix_activity :: "string \<Rightarrow> string" where
  "fix_activity activity =
     [DQ] @ ''activity'' @ [DQ] @ '': '' @ [DQ]
     @ replace [DQ] [BS, DQ] (replace [NL] [BS, CHR ''n''] (replace [BS] [BS, BS] activity))"

text \<open>\<^verbatim>\<open>re.sub(pattern, fix_activity, s)\<close>: the matches from the left, not overlapping.\<close>

function sub_activity :: "string \<Rightarrow> string" where
  "sub_activity [] = []"
| "sub_activity (c # cs) =
     (case match_activity (c # cs) of
        Some (v, rest) \<Rightarrow> fix_activity v @ sub_activity rest
      | None \<Rightarrow> c # sub_activity cs)"
  by pat_completeness auto
termination
proof (relation "measure length")
  show "wf (measure length)" by simp
next
  fix c :: char and cs :: string and x2 :: "string \<times> string" and v rest :: string
  assume m: "match_activity (c # cs) = Some x2" and x: "(v, rest) = x2"
  have lv: "lazy_value t = Some (a, b) \<Longrightarrow> length b \<le> length t" for t a b
    by (induction t arbitrary: a b) (auto split: if_splits option.splits)
  from m x obtain q u
    where d: "dropWhile is_space (drop (length activity_key) (c # cs)) = q # u"
      and l: "lazy_value u = Some (v, rest)"
    by (auto simp: match_activity_def split: if_splits list.splits)
  have "length (dropWhile is_space (drop (length activity_key) (c # cs))) \<le> length (c # cs)"
    using length_dropWhile_le[of is_space "drop (length activity_key) (c # cs)"] by simp
  then have "length u < length (c # cs)" using d by simp
  then show "(rest, c # cs) \<in> measure length" using lv[OF l] by simp
next
  fix c :: char and cs :: string
  show "(cs, c # cs) \<in> measure length" by simp
qed

definition sanitize_json_string :: "string \<Rightarrow> string" where
  "sanitize_json_string json_str =
     sub_activity
       (filter (\<lambda>c. \<not> is_control c) (replace [CR] [NL] (replace [CR, NL] [NL] json_str)))"

text \<open>
  The state of the loop of \<^verbatim>\<open>sanitize_line_by_line\<close>: the lines put out, whether the
  cursor is inside an activity value, and the text of it gathered so far.
\<close>

record line_state =
  result :: "string list"
  activity_content :: bool
  activity_buffer :: string

definition line_step :: "line_state \<Rightarrow> string \<Rightarrow> line_state" where
  "line_step st line =
     (let stripped = strip line
      in if contains stripped activity_key
         then (let prefix = before_first activity_key stripped
                              @ [DQ] @ ''activity'' @ [DQ] @ '': '' @ [DQ];
                   content = strip (after_first activity_key stripped)
               in if endswith stripped [DQ] \<and> length (filter (\<lambda>c. c = DQ) stripped) > 3
                  then (if startswith content [DQ] \<and> endswith content [DQ]
                        then st\<lparr>result := result st
                                   @ [prefix @ replace [DQ] [BS, DQ] (butlast (tl content)) @ [DQ]],
                                activity_content := False\<rparr>
                        else st\<lparr>activity_content := True, activity_buffer := content\<rparr>)
                  else st\<lparr>activity_content := True,
                          activity_buffer := (if startswith content [DQ] then tl content
                                              else content)\<rparr>)
         else if activity_content st
         then (if endswith stripped [DQ] \<and> \<not> endswith stripped [BS, DQ]
               then st\<lparr>result := result st
                          @ [replace [NL] [BS, CHR ''n'']
                               (replace [DQ] [BS, DQ]
                                  (activity_buffer st @ '' '' @ butlast stripped)) @ [DQ]],
                       activity_content := False,
                       activity_buffer := []\<rparr>
               else st\<lparr>activity_buffer := activity_buffer st @ '' '' @ stripped\<rparr>)
         else st\<lparr>result := result st @ [stripped]\<rparr>)"

definition sanitize_line_by_line :: "string \<Rightarrow> string" where
  "sanitize_line_by_line json_str =
     join [NL]
       (result (foldl line_step
                  \<lparr>result = [], activity_content = False, activity_buffer = []\<rparr>
                  (split_chr NL json_str)))"

text \<open>
  \<^verbatim>\<open>safe_parse_json\<close>. \<open>loads\<close> is \<^verbatim>\<open>json.loads\<close>, with \<open>None\<close> for its
  \<^verbatim>\<open>JSONDecodeError\<close>; \<open>Inl\<close> is the \<^verbatim>\<open>ValueError\<close> the function raises.
  \<open>safe_parse_json_steps\<close> is the function together with the texts it hands to
  \<^verbatim>\<open>json.loads\<close>, in the order of the calls; a sanitizer runs exactly when its text is
  in that list.
\<close>

datatype parse_error = ValueError

definition safe_parse_json_steps ::
  "(string \<Rightarrow> json option) \<Rightarrow> string \<Rightarrow> string list \<times> (parse_error + json)" where
  "safe_parse_json_steps loads json_str =
     (case loads json_str of
        Some doc \<Rightarrow> ([json_str], Inr doc)
      | None \<Rightarrow>
          (let sanitized = sanitize_json_string json_str
           in case loads sanitized of
                Some doc \<Rightarrow> ([json_str, sanitized], Inr doc)
              | None \<Rightarrow>
                  (let sanitized2 = sanitize_line_by_line json_str
                   in case loads sanitized2 of
                        Some doc \<Rightarrow> ([json_str, sanitized, sanitized2], Inr doc)
                      | None \<Rightarrow> ([json_str, sanitized, sanitized2], Inl ValueError))))"

definition safe_parse_json :: "(string \<Rightarrow> json option) \<Rightarrow> string \<Rightarrow> parse_error + json" where
  "safe_parse_json loads json_str = snd (safe_parse_json_steps loads json_str)"

text \<open>
  A stand-in for \<^verbatim>\<open>json.loads\<close> in closed examples: it accepts the text
  \<^verbatim>\<open>{}\<close> and nothing else.
\<close>

definition loads_empty_object :: "string \<Rightarrow> json option" where
  "loads_empty_object s = (if s = ''{}'' then Some (JDict []) else None)"

section \<open>Notions of the specification\<close>

text \<open>
  Follows the specification's words on goals normalization: a category whose value is a
  sequence gives its elements, a category whose value is a string gives the one element
  \<^verbatim>\<open><category>: <value>\<close>, and the categories are taken in mapping order; a flat
  sequence is used as it is; any other shape gives the empty sequence.
\<close>

definition spec_category_goals :: "string \<times> json \<Rightarrow> json list" where
  "spec_category_goals kv =
     (case snd kv of
        JList xs \<Rightarrow> xs
      | JStr s \<Rightarrow> [JStr (fst kv @ '': '' @ s)]
      | _ \<Rightarrow> [])"

definition spec_normalize_goals :: "json \<Rightarrow> json list" where
  "spec_normalize_goals raw_goals =
     (case raw_goals of
        JDict kvs \<Rightarrow> concat (map spec_category_goals kvs)
      | JList xs \<Rightarrow> xs
      | _ \<Rightarrow> [])"

text \<open>
  The week objects of a parsed response, a week object that has its three required
  fields, and the week number a week object carries (as the model field reads it).
\<close>

definition doc_weeks :: "json \<Rightarrow> json list option" where
  "doc_weeks doc = Option.bind (py_getitem doc ''weeks'') py_iter"

definition has_week_fields :: "json \<Rightarrow> bool" where
  "has_week_fields w = list_all (\<lambda>field. py_contains w field = Some True) required_week_fields"

definition input_week_number :: "env \<Rightarrow> json \<Rightarrow> int option" where
  "input_week_number e w = Option.bind (py_getitem w ''week_number'') (as_int e)"

text \<open>A roadmap with every \<^verbatim>\<open>practice\<close> blanked: what post-validation must leave alone.\<close>

definition blank_task :: "weekly_task \<Rightarrow> weekly_task" where
  "blank_task t = t\<lparr>practice := []\<rparr>"

definition blank_week :: "week_plan \<Rightarrow> week_plan" where
  "blank_week w = w\<lparr>tasks := map blank_task (tasks w)\<rparr>"

definition blank_roadmap :: "monthly_roadmap \<Rightarrow> monthly_roadmap" where
  "blank_roadmap r = r\<lparr>weeks := map blank_week (weeks r)\<rparr>"

section \<open>More example values\<close>

definition example_task :: "string \<Rightarrow> weekly_task" where
  "example_task p =
     \<lparr>task_name = ''Read'', resources = [], time_slot = ''9:00 AM'',
      time_commitment = ''2 hours/week'', practice = p\<rparr>"

definition four_weeks_roadmap :: monthly_roadmap where
  "four_weeks_roadmap =
     \<lparr>user_id = None, persona_type = ''INTJ'', duration_months = 1, requested_month = 1,
      start_date = 0, end_date = 30,
      weeks = [\<lparr>week_number = 1, tasks = [example_task ''1. Read the book'']\<rparr>,
               \<lparr>week_number = 2, tasks = [example_task ''1. Read the book'']\<rparr>,
               \<lparr>week_number = 4, tasks = [example_task ''1. Read the book'']\<rparr>],
      overall_goals = [''g'']\<rparr>"

definition missing_weeks_doc :: json where
  "missing_weeks_doc = JDict [(''overall_goals'', JList [JStr ''g''])]"

definition unformatted_month :: monthly_roadmap where
  "unformatted_month =
     \<lparr>user_id = None, persona_type = ''INTJ'', duration_months = 1, requested_month = 1,
      start_date = 0, end_date = 30,
      weeks = [\<lparr>week_number = 1, tasks = [example_task ''Read the book'']\<rparr>],
      overall_goals = [''g'']\<rparr>"

definition empty_month :: monthly_roadmap where
  "empty_month =
     \<lparr>user_id = None, persona_type = ''INTJ'', duration_months = 1, requested_month = 1,
      start_date = 0, end_date = 30, weeks = [], overall_goals = [''g'']\<rparr>"

text \<open>
  The goals of a parsed response as the field \<^verbatim>\<open>overall_goals\<close> of the roadmap model
  reads them; \<open>None\<close> when the model refuses one of them.
\<close>

definition doc_goals :: "env \<Rightarrow> json \<Rightarrow> string list option" where
  "doc_goals e doc =
     those (map (as_str e)
       (normalize_goals (case py_getitem doc ''overall_goals'' of
                           Some g \<Rightarrow> g | None \<Rightarrow> JList [])))"

section \<open>Notions for the invariant of the activity normalizer\<close>

text \<open>
  The texts the loop over \<^verbatim>\<open>range(10, 0, -1)\<close> looks for, in its order:
  \<^verbatim>\<open>10. \<close>, \<^verbatim>\<open>9. \<close>, down to \<^verbatim>\<open>1. \<close>.
\<close>

definition break_patterns :: "string list" where
  "break_patterns = map (\<lambda>i. show_nat i @ ''. '') (rev [1..<11])"

text \<open>A line as the first loop of the first branch writes it: a bare number gets a space.\<close>

definition pad_number :: "string \<Rightarrow> string" where
  "pad_number l = (if match_number_only l then l @ '' '' else l)"

text \<open>
  The loop does not cut the number a line starts with: none of its texts begins inside
  the leading digits of the line, after the first of them. The lines \<^verbatim>\<open>11. k\<close> and
  \<^verbatim>\<open>110. k\<close> are cut there (at \<^verbatim>\<open>1. \<close> and at \<^verbatim>\<open>10. \<close>); \<^verbatim>\<open>10. j\<close>,
  \<^verbatim>\<open>20. j\<close> and \<^verbatim>\<open>11.k\<close> are not.
\<close>

definition number_unbroken :: "string \<Rightarrow> bool" where
  "number_unbroken l =
     list_all (\<lambda>j. list_all (\<lambda>p. \<not> startswith (drop j l) p) break_patterns)
       [1..<length (takeWhile is_digit l)]"

definition step_line :: "string \<Rightarrow> bool" where
  "step_line l = (match_numbered l \<and> number_unbroken l)"

text \<open>
  The lines one step of the loop makes of a text, and the condition on two successive
  lines that the proof carries through the loop: an empty line is followed by a line
  that starts with the number of a text in \<open>D\<close>.
\<close>

definition break_lines :: "string \<Rightarrow> string \<Rightarrow> string list" where
  "break_lines p s = split_chr NL (replace_ne p (NL # p) s)"

definition after_blank :: "string set \<Rightarrow> string \<Rightarrow> string \<Rightarrow> bool" where
  "after_blank D x y =
     (x = [] \<longrightarrow> y \<noteq> [] \<and> takeWhile is_digit y \<in> takeWhile is_digit ` D)"

section \<open>Properties\<close>

lemma split_chr_not_Nil: "split_chr d s \<noteq> []"
  by (induction s) (auto split: list.splits)

lemma split_chr_no_sep: "l \<in> set (split_chr d s) \<Longrightarrow> d \<notin> set l"
  by (induction s arbitrary: l) (auto split: if_splits list.splits)

lemma split_chr_plain: "d \<notin> set x \<Longrightarrow> split_chr d x = [x]"
  by (induction x) auto

lemma split_chr_append:
  "d \<notin> set x \<Longrightarrow> split_chr d (x @ d # s) = x # split_chr d s"
  by (induction x) (auto split: list.splits)

lemma split_chr_join:
  "xs \<noteq> [] \<Longrightarrow> \<forall>x \<in> set xs. d \<notin> set x \<Longrightarrow> split_chr d (join [d] xs) = xs"
proof (induction xs)
  case Nil
  then show ?case by simp
next
  case (Cons x xs)
  show ?case
  proof (cases xs)
    case Nil
    then show ?thesis using Cons.prems by (simp add: split_chr_plain)
  next
    case (Cons y ys)
    then have "split_chr d (join [d] xs) = xs" using Cons.IH Cons.prems by simp
    then show ?thesis using Cons Cons.prems by (simp add: split_chr_append)
  qed
qed

lemma set_strip: "set (strip l) \<subseteq> set l"
proof -
  have "set (rstrip m) \<subseteq> set m" for m
    unfolding rstrip_def by (metis set_dropWhileD set_rev subsetI)
  moreover have "set (lstrip l) \<subseteq> set l"
    unfolding lstrip_def by (auto dest: set_dropWhileD)
  ultimately show ?thesis unfolding strip_def by blast
qed

lemma stripped_lines_clean:
  "l \<in> set (stripped_lines s) \<Longrightarrow> l \<noteq> [] \<and> NL \<notin> set l"
proof -
  assume "l \<in> set (stripped_lines s)"
  then obtain m where m: "m \<in> set (split_chr NL s)" and l: "l = strip m" and ne: "l \<noteq> []"
    unfolding stripped_lines_def by auto
  have "NL \<notin> set m" using split_chr_no_sep[OF m] .
  then have "NL \<notin> set l" using set_strip[of m] l by blast
  then show ?thesis using ne by simp
qed

lemma digit_char_is_digit: "d < 10 \<Longrightarrow> is_digit (digit_char d)"
proof -
  assume "d < 10"
  then have "d \<in> {0,1,2,3,4,5,6,7,8,9}" by auto
  then show ?thesis by (auto simp: digit_char_def is_digit_def)
qed

lemma show_nat_digits: "\<forall>c \<in> set (show_nat n). is_digit c"
proof (induction n rule: show_nat.induct)
  case (1 n)
  show ?case
  proof (cases "n < 10")
    case True
    then show ?thesis by (subst show_nat.simps) (simp add: digit_char_is_digit)
  next
    case False
    then show ?thesis using 1 by (subst show_nat.simps) (simp add: digit_char_is_digit)
  qed
qed

lemma show_nat_not_Nil: "show_nat n \<noteq> []"
  by (subst show_nat.simps) simp

lemma is_digit_not_NL: "is_digit c \<Longrightarrow> c \<noteq> NL"
  by (auto simp: is_digit_def)

lemma match_numbered_prefix:
  assumes "ds \<noteq> []" "\<forall>c \<in> set ds. is_digit c"
  shows "match_numbered (ds @ CHR ''.'' # rest)"
proof -
  have nd: "\<not> is_digit (CHR ''.'')" by (simp add: is_digit_def)
  have "takeWhile is_digit (ds @ CHR ''.'' # rest) = ds"
    using assms(2) nd by (simp add: takeWhile_append2)
  moreover have "dropWhile is_digit (ds @ CHR ''.'' # rest) = CHR ''.'' # rest"
    using assms(2) nd by (simp add: dropWhile_append2)
  ultimately show ?thesis using assms(1) by (simp add: match_numbered_def)
qed

lemma merge_lines_ok:
  "\<forall>l \<in> set ls. step_ok l \<Longrightarrow> \<forall>l \<in> set merged. step_ok l \<Longrightarrow> NL \<notin> set current
   \<Longrightarrow> \<forall>l \<in> set (merge_lines ls merged current). step_ok l"
proof (induction ls merged current rule: merge_lines.induct)
  case (1 merged current)
  then show ?case by (simp add: step_ok_def)
next
  case (2 line rest merged current)
  have line: "step_ok line" and rest: "\<forall>l \<in> set rest. step_ok l"
    using "2.prems"(1) by simp_all
  show ?case
  proof (cases "match_numbered line")
    case True
    have m: "\<forall>l \<in> set (if current \<noteq> [] then merged @ [current] else merged). step_ok l"
      using "2.prems"(2,3) by (simp add: step_ok_def)
    have c: "NL \<notin> set line" using line by (simp add: step_ok_def)
    from "2.IH"(1)[OF True rest m c] show ?thesis using True by simp
  next
    case False
    have c: "NL \<notin> set (if current \<noteq> [] then current @ '' '' @ line else line)"
      using line "2.prems"(3) by (simp add: step_ok_def)
    from "2.IH"(2)[OF False rest "2.prems"(2) c] show ?thesis using False by simp
  qed
qed

lemma number_lines_ok:
  "\<forall>l \<in> set ls. step_ok l \<Longrightarrow> \<forall>l \<in> set acc. step_ok l \<and> match_numbered l
   \<Longrightarrow> \<forall>l \<in> set (number_lines ls acc c). step_ok l \<and> match_numbered l"
proof (induction ls acc c rule: number_lines.induct)
  case (1 numbered counter)
  then show ?case by simp
next
  case (2 line rest numbered counter)
  have line: "step_ok line" and rest: "\<forall>l \<in> set rest. step_ok l"
    using "2.prems"(1) by simp_all
  have a: "match_numbered (show_nat counter @ ''. '' @ line)"
    using match_numbered_prefix[OF show_nat_not_Nil show_nat_digits] by simp
  have b: "step_ok (show_nat counter @ ''. '' @ line)"
    using line show_nat_digits[of counter] is_digit_not_NL by (auto simp: step_ok_def)
  show ?case
  proof (cases "match_numbered line")
    case True
    have "\<forall>l \<in> set (numbered @ [line]). step_ok l \<and> match_numbered l"
      using "2.prems"(2) line True by simp
    from "2.IH"(1)[OF True rest this] show ?thesis using True by simp
  next
    case False
    have "\<forall>l \<in> set (numbered @ [show_nat counter @ ''. '' @ line]). step_ok l \<and> match_numbered l"
      using "2.prems"(2) a b by simp
    from "2.IH"(2)[OF False rest this] show ?thesis using False by simp
  qed
qed


lemma is_digit_not_space: "is_digit c \<Longrightarrow> \<not> is_space c"
  by (auto simp: is_digit_def is_space_def)

lemma match_numbered_not_blank:
  assumes "match_numbered l"
  shows "strip l \<noteq> []"
proof -
  from assms have "takeWhile is_digit l \<noteq> []" by (simp add: match_numbered_def)
  then obtain c cs where l: "l = c # cs" and c: "is_digit c"
    by (cases l) (auto split: if_splits)
  have ns: "\<not> is_space c" using c by (rule is_digit_not_space)
  then have "lstrip l = l" using l by (simp add: lstrip_def)
  moreover have "dropWhile is_space (rev l) \<noteq> []"
    using ns l by (simp add: dropWhile_eq_Nil_conv)
  ultimately show ?thesis by (simp add: strip_def rstrip_def)
qed

lemma repair_steps_ok: "\<forall>l \<in> set (repair_steps s). step_ok l \<and> match_numbered l"
proof -
  have "\<forall>l \<in> set (stripped_lines s). step_ok l"
    using stripped_lines_clean by (simp add: step_ok_def)
  then have "\<forall>l \<in> set (merge_lines (stripped_lines s) [] []). step_ok l"
    by (rule merge_lines_ok) simp_all
  then show ?thesis unfolding repair_steps_def by (rule number_lines_ok) simp
qed

lemma format_text_repair:
  "\<not> validate_activity_format (clean_text s) \<Longrightarrow> format_text s = join [NL] (repair_steps (clean_text s))"
  by (simp add: format_text_def repair_steps_def Let_def)

lemma match_numbered_append: "match_numbered x \<Longrightarrow> match_numbered (x @ y)"
proof -
  assume m: "match_numbered x"
  then obtain c r where d: "dropWhile is_digit x = c # r" and c: "c = CHR ''.''"
    and t: "takeWhile is_digit x \<noteq> []"
    by (auto simp: match_numbered_def split: list.splits)
  have x: "x = takeWhile is_digit x @ CHR ''.'' # r" using d c
    by (metis takeWhile_dropWhile_id)
  have "\<forall>c \<in> set (takeWhile is_digit x). is_digit c" by (auto dest: set_takeWhileD)
  then have "match_numbered (takeWhile is_digit x @ CHR ''.'' # (r @ y))"
    using t by (intro match_numbered_prefix) auto
  then show ?thesis using x by (metis append_Cons append_assoc)
qed

lemma merge_lines_tail:
  "(merged \<noteq> [] \<longrightarrow> current \<noteq> []) \<Longrightarrow> \<forall>m \<in> set (tl (merged @ [current])). match_numbered m
   \<Longrightarrow> \<forall>m \<in> set (tl (merge_lines ls merged current)). match_numbered m"
proof (induction ls merged current rule: merge_lines.induct)
  case (1 merged current)
  then show ?case by (cases "current = []") auto
next
  case (2 line rest merged current)
  show ?case
  proof (cases "match_numbered line")
    case True
    let ?m = "if current \<noteq> [] then merged @ [current] else merged"
    have ne: "line \<noteq> []" using True by (auto simp: match_numbered_def)
    have a: "?m \<noteq> [] \<longrightarrow> line \<noteq> []" using ne by simp
    have b: "\<forall>m \<in> set (tl (?m @ [line])). match_numbered m"
    proof (cases "current = []")
      case True
      then have "merged = []" using "2.prems"(1) by auto
      then show ?thesis using True by simp
    next
      case False
      then have "tl (?m @ [line]) = tl (merged @ [current]) @ [line]" by (cases merged) auto
      then show ?thesis using "2.prems"(2) True by auto
    qed
    from "2.IH"(1)[OF True a b] show ?thesis using True by simp
  next
    case False
    let ?c = "if current \<noteq> [] then current @ '' '' @ line else line"
    have a: "merged \<noteq> [] \<longrightarrow> ?c \<noteq> []" using "2.prems"(1) by auto
    have b: "\<forall>m \<in> set (tl (merged @ [?c])). match_numbered m"
    proof (cases "merged = []")
      case True
      then show ?thesis by simp
    next
      case False
      then have c: "current \<noteq> []" using "2.prems"(1) by simp
      have t: "tl (merged @ [x]) = tl merged @ [x]" for x using False by (cases merged) auto
      have "match_numbered current" using "2.prems"(2) t[of current] by simp
      then have "match_numbered (current @ '' '' @ line)" by (rule match_numbered_append)
      then show ?thesis using "2.prems"(2) c t[of current] t[of "current @ '' '' @ line"] by auto
    qed
    from "2.IH"(2)[OF False a b] show ?thesis using False by simp
  qed
qed

lemma number_lines_numbered:
  "\<forall>m \<in> set xs. match_numbered m \<Longrightarrow> number_lines xs acc c = acc @ xs"
  by (induction xs arbitrary: acc) simp_all

lemma show_nat_1: "show_nat (Suc 0) = ''1''"
  by (simp add: show_nat.simps digit_char_def)

lemma number_lines_first:
  assumes "\<forall>m \<in> set (tl xs). match_numbered m"
  shows "number_lines xs [] 1 = map (\<lambda>m. if match_numbered m then m else ''1. '' @ m) xs"
proof (cases xs)
  case Nil
  then show ?thesis by simp
next
  case (Cons x r)
  have r: "\<forall>m \<in> set r. match_numbered m" using assms Cons by simp
  then have "map (\<lambda>m. if match_numbered m then m else ''1. '' @ m) r = r"
    by (induction r) auto
  then show ?thesis using Cons r by (simp add: number_lines_numbered show_nat_1)
qed

lemma repair_steps_eq:
  "repair_steps s = map (\<lambda>m. if match_numbered m then m else ''1. '' @ m)
                      (merge_lines (stripped_lines s) [] [])"
proof -
  have "\<forall>m \<in> set (tl (merge_lines (stripped_lines s) [] [])). match_numbered m"
    by (rule merge_lines_tail) simp_all
  then show ?thesis unfolding repair_steps_def by (rule number_lines_first)
qed

lemma break_patterns_eq:
  "break_patterns = [''10. '', ''9. '', ''8. '', ''7. '', ''6. '', ''5. '', ''4. '', ''3. '', ''2. '', ''1. '']"
  by code_simp

lemma startswith_iff: "startswith s p \<longleftrightarrow> (\<exists>r. s = p @ r)"
  by (induction s p rule: startswith.induct) auto

lemma split_chr_hd_tl: "split_chr d s = hd (split_chr d s) # tl (split_chr d s)"
  using split_chr_not_Nil[of d s] by simp

lemma split_chr_prefix:
  "d \<notin> set x \<Longrightarrow> split_chr d (x @ y) = (x @ hd (split_chr d y)) # tl (split_chr d y)"
proof (induction x)
  case Nil
  then show ?case using split_chr_not_Nil[of d y] by simp
next
  case (Cons c x)
  then show ?case by auto
qed

lemma replace_ne_occ:
  "old \<noteq> [] \<Longrightarrow> replace_ne old new (old @ r) = new @ replace_ne old new r"
proof -
  assume ne: "old \<noteq> []"
  then obtain c cs where o: "old @ r = c # cs" by (cases old) auto
  have s: "startswith (old @ r) old" by (auto simp: startswith_iff)
  show ?thesis using ne s o by (metis append_eq_conv_conj replace_ne.simps(2))
qed

lemma replace_ne_no_occ:
  "\<not> startswith (c # cs) old \<Longrightarrow> replace_ne old new (c # cs) = c # replace_ne old new cs"
  by simp

lemma pieces_line_aux:
  "old \<noteq> [] \<Longrightarrow> NL \<notin> set old \<Longrightarrow> new = NL # old \<Longrightarrow> NL \<notin> set l \<Longrightarrow>
    \<exists>h ts. split_chr NL (replace_ne old new l) = h # ts
        \<and> (\<forall>t \<in> set ts. startswith t old)
        \<and> (h = l \<and> ts = [] \<or> (\<exists>r. l = h @ old @ r) \<and> ts \<noteq> [])"
proof (induction old new l rule: replace_ne.induct)
  case (1 old new)
  then show ?case by simp
next
  case (2 old new c cs)
  note ne = "2.prems"(1) and nlo = "2.prems"(2) and new = "2.prems"(3)
  show ?case
  proof (cases "startswith (c # cs) old")
    case True
    then obtain r where r: "c # cs = old @ r" by (auto simp: startswith_iff)
    then have d: "drop (length old) (c # cs) = r" by (metis append_eq_conv_conj)
    have nr: "NL \<notin> set r" using "2.prems"(4) r by (metis Un_iff set_append)
    from "2.IH"(1) ne True d nr nlo new obtain h ts
      where s: "split_chr NL (replace_ne old new r) = h # ts"
        and t: "\<forall>t \<in> set ts. startswith t old"
      by auto
    have "replace_ne old new (c # cs) = NL # old @ replace_ne old new r"
      using r replace_ne_occ[OF ne, of new r] new by simp
    then have "split_chr NL (replace_ne old new (c # cs)) = [] # (old @ h) # ts"
      using s split_chr_prefix[OF nlo, of "replace_ne old new r"] by simp
    moreover have "startswith (old @ h) old" by (auto simp: startswith_iff)
    ultimately show ?thesis using t r by auto
  next
    case False
    have ncs: "NL \<notin> set cs" and c: "c \<noteq> NL" using "2.prems"(4) by auto
    from "2.IH"(2) False ncs ne nlo new obtain h ts
      where s: "split_chr NL (replace_ne old new cs) = h # ts"
        and t: "\<forall>t \<in> set ts. startswith t old"
        and k: "h = cs \<and> ts = [] \<or> (\<exists>r. cs = h @ old @ r) \<and> ts \<noteq> []"
      by auto
    have "split_chr NL (replace_ne old new (c # cs)) = (c # h) # ts"
      using False s c by simp
    moreover have "c # h = c # cs \<and> ts = [] \<or> (\<exists>r. c # cs = (c # h) @ old @ r) \<and> ts \<noteq> []"
      using k by auto
    ultimately show ?thesis using t by blast
  qed
qed

lemma hd_split_chr_prefix: "\<exists>rest. s = hd (split_chr d s) @ rest"
proof (induction s)
  case Nil
  then show ?case by simp
next
  case (Cons c s)
  then show ?case by (cases "split_chr d s") auto
qed

lemma split_chr_Cons:
  "c \<noteq> d \<Longrightarrow> split_chr d (c # s) = (c # hd (split_chr d s)) # tl (split_chr d s)"
  using split_chr_not_Nil[of d s] by (cases "split_chr d s") auto

lemma split_replace_lines:
  "old \<noteq> [] \<Longrightarrow> NL \<notin> set old \<Longrightarrow> new = NL # old \<Longrightarrow>
     split_chr NL (replace_ne old new s)
       = concat (map (\<lambda>l. split_chr NL (replace_ne old new l)) (split_chr NL s))"
proof (induction old new s rule: replace_ne.induct)
  case (1 old new)
  then show ?case by simp
next
  case (2 old new c cs)
  note ne = "2.prems"(1) and nlo = "2.prems"(2) and new = "2.prems"(3)
  let ?f = "\<lambda>l. split_chr NL (replace_ne old new l)"
  have fne: "?f l \<noteq> []" for l by (rule split_chr_not_Nil)
  show ?case
  proof (cases "startswith (c # cs) old")
    case True
    then obtain r where r: "c # cs = old @ r" by (auto simp: startswith_iff)
    then have d: "drop (length old) (c # cs) = r" by (metis append_eq_conv_conj)
    let ?h0 = "hd (split_chr NL r)" and ?t0 = "tl (split_chr NL r)"
    have sr: "split_chr NL r = ?h0 # ?t0" by (rule split_chr_hd_tl)
    have ih: "split_chr NL (replace_ne old new r) = concat (map ?f (split_chr NL r))"
      using "2.IH"(1) ne True d nlo new by simp
    then have ih': "split_chr NL (replace_ne old new r) = ?f ?h0 @ concat (map ?f ?t0)"
      using sr by (metis concat.simps(2) list.simps(9))
    have lhs: "split_chr NL (replace_ne old new (c # cs))
                 = [] # (old @ hd (?f ?h0)) # (tl (?f ?h0) @ concat (map ?f ?t0))"
    proof -
      have "replace_ne old new (c # cs) = NL # old @ replace_ne old new r"
        using r replace_ne_occ[OF ne, of new r] new by simp
      then have "split_chr NL (replace_ne old new (c # cs))
                  = [] # (old @ hd (split_chr NL (replace_ne old new r)))
                       # tl (split_chr NL (replace_ne old new r))"
        using split_chr_prefix[OF nlo, of "replace_ne old new r"] by simp
      then show ?thesis using ih' fne[of ?h0] by simp
    qed
    have "split_chr NL (c # cs) = (old @ ?h0) # ?t0"
      using r split_chr_prefix[OF nlo, of r] by simp
    moreover have "?f (old @ ?h0) = [] # (old @ hd (?f ?h0)) # tl (?f ?h0)"
    proof -
      have "replace_ne old new (old @ ?h0) = NL # old @ replace_ne old new ?h0"
        using replace_ne_occ[OF ne, of new ?h0] new by simp
      then show ?thesis using split_chr_prefix[OF nlo, of "replace_ne old new ?h0"] by simp
    qed
    ultimately show ?thesis using lhs by simp
  next
    case False
    have ih: "split_chr NL (replace_ne old new cs) = concat (map ?f (split_chr NL cs))"
      using "2.IH"(2) False ne nlo new by simp
    show ?thesis
    proof (cases "c = NL")
      case True
      then show ?thesis using False ih by simp
    next
      case cn: False
      let ?h0 = "hd (split_chr NL cs)" and ?t0 = "tl (split_chr NL cs)"
      have sr: "split_chr NL cs = ?h0 # ?t0" by (rule split_chr_hd_tl)
      have ih': "split_chr NL (replace_ne old new cs) = ?f ?h0 @ concat (map ?f ?t0)"
        using ih sr by (metis concat.simps(2) list.simps(9))
      obtain rest where rest: "cs = ?h0 @ rest" using hd_split_chr_prefix by blast
      have nf: "\<not> startswith (c # ?h0) old"
      proof
        assume "startswith (c # ?h0) old"
        then obtain r' where "c # ?h0 = old @ r'" by (auto simp: startswith_iff)
        then have "c # cs = old @ (r' @ rest)" using rest by (metis append_Cons append_assoc)
        then show False using False by (auto simp: startswith_iff)
      qed
      have "split_chr NL (replace_ne old new (c # cs))
              = (c # hd (?f ?h0)) # (tl (?f ?h0) @ concat (map ?f ?t0))"
        using False cn ih' fne[of ?h0] split_chr_Cons[of c NL "replace_ne old new cs"] by simp
      moreover have "split_chr NL (c # cs) = (c # ?h0) # ?t0"
        using cn split_chr_Cons[of c NL cs] by simp
      moreover have "?f (c # ?h0) = (c # hd (?f ?h0)) # tl (?f ?h0)"
        using nf cn split_chr_Cons[of c NL "replace_ne old new ?h0"] by simp
      ultimately show ?thesis by simp
    qed
  qed
qed

lemma pattern_cases:
  assumes "p \<in> set break_patterns"
  obtains "p = ''10. ''" | d where "d \<in> set ''123456789''" "p = [d, CHR ''.'', CHR '' '']"
  using assms unfolding break_patterns_eq by auto

lemma nonzero_digit: "d \<in> set ''123456789'' \<Longrightarrow> is_digit d \<and> d \<noteq> CHR ''0''"
  by (auto simp: is_digit_def)

lemma is_digit_10: "is_digit (CHR ''1'') \<and> is_digit (CHR ''0'')"
  by (simp add: is_digit_def)

lemma not_digit_dot: "\<not> is_digit (CHR ''.'')"
  by (simp add: is_digit_def)

lemma pattern_not_Nil: "p \<in> set break_patterns \<Longrightarrow> p \<noteq> [] \<and> NL \<notin> set p"
proof (erule pattern_cases)
  show "p = ''10. '' \<Longrightarrow> p \<noteq> [] \<and> NL \<notin> set p" by simp
  show "d \<in> set ''123456789'' \<Longrightarrow> p = [d, CHR ''.'', CHR '' ''] \<Longrightarrow> p \<noteq> [] \<and> NL \<notin> set p" for d
    using nonzero_digit[of d] is_digit_not_NL[of d] by auto
qed

lemma pattern_hd_digit: "p \<in> set break_patterns \<Longrightarrow> is_digit (hd p) \<and> hd p \<noteq> CHR ''0''"
proof (erule pattern_cases)
  show "p = ''10. '' \<Longrightarrow> is_digit (hd p) \<and> hd p \<noteq> CHR ''0''" using is_digit_10 by simp
  show "d \<in> set ''123456789'' \<Longrightarrow> p = [d, CHR ''.'', CHR '' '']
          \<Longrightarrow> is_digit (hd p) \<and> hd p \<noteq> CHR ''0''" for d
    using nonzero_digit[of d] by simp
qed

lemma pattern_key:
  assumes "p \<in> set break_patterns"
  shows "takeWhile is_digit (p @ r) = takeWhile is_digit p
         \<and> (p = ''10. '' \<and> takeWhile is_digit p = ''10''
             \<or> (\<exists>d. p = [d, CHR ''.'', CHR '' ''] \<and> takeWhile is_digit p = [d]))"
proof (rule pattern_cases[OF assms])
  assume "p = ''10. ''"
  then show ?thesis using is_digit_10 not_digit_dot by simp
next
  fix d assume "d \<in> set ''123456789''" and p: "p = [d, CHR ''.'', CHR '' '']"
  then have "is_digit d" using nonzero_digit by blast
  then show ?thesis using p not_digit_dot by simp
qed

lemma pattern_digits:
  "p \<in> set break_patterns \<Longrightarrow> takeWhile is_digit (p @ r) = takeWhile is_digit p"
  using pattern_key by blast

lemma pattern_key_inj:
  assumes "p \<in> set break_patterns" "q \<in> set break_patterns"
    and "takeWhile is_digit p = takeWhile is_digit q"
  shows "p = q"
  using pattern_key[OF assms(1), of "[]"] pattern_key[OF assms(2), of "[]"] assms(3) by auto

lemma startswith_hd: "startswith s p \<Longrightarrow> p \<noteq> [] \<Longrightarrow> s \<noteq> [] \<and> hd s = hd p"
  by (auto simp: startswith_iff)

lemma pattern_step_line:
  assumes "p \<in> set break_patterns"
  shows "step_line (p @ r)"
proof -
  from pattern_key[OF assms, of r] have k: "takeWhile is_digit (p @ r) = takeWhile is_digit p"
    and c: "p = ''10. '' \<and> takeWhile is_digit p = ''10''
             \<or> (\<exists>d. p = [d, CHR ''.'', CHR '' ''] \<and> takeWhile is_digit p = [d])"
    by blast+
  have dg: "\<forall>c \<in> set (takeWhile is_digit p). is_digit c" by (auto dest: set_takeWhileD)
  have m: "match_numbered (p @ r)"
  proof -
    from c obtain ds where p: "p = ds @ ''. ''" and d: "ds = takeWhile is_digit p" "ds \<noteq> []"
      by auto
    have "match_numbered (ds @ CHR ''.'' # ('' '' @ r))"
      using d dg by (intro match_numbered_prefix) auto
    moreover have "p @ r = ds @ CHR ''.'' # ('' '' @ r)" using p by simp
    ultimately show ?thesis by simp
  qed
  have u: "number_unbroken (p @ r)"
  proof -
    from c show ?thesis
    proof
      assume p: "p = ''10. '' \<and> takeWhile is_digit p = ''10''"
      have "\<not> startswith (CHR ''0'' # x) q" if "q \<in> set break_patterns" for q x
        using startswith_hd[of "CHR ''0'' # x" q] pattern_hd_digit[OF that] pattern_not_Nil[OF that]
        by auto
      then have n: "\<forall>q \<in> set break_patterns. \<not> startswith (drop 1 (p @ r)) q"
        using p by simp
      have tp: "takeWhile is_digit p = ''10''" using p by blast
      have "takeWhile is_digit (p @ r) = ''10''" by (rule trans[OF k tp])
      then have "length (takeWhile is_digit (p @ r)) = 2" by simp
      then have "[1..<length (takeWhile is_digit (p @ r))] = [1]" by (simp add: upt_rec)
      then show ?thesis using n by (simp add: number_unbroken_def list_all_iff)
    next
      assume "\<exists>d. p = [d, CHR ''.'', CHR '' ''] \<and> takeWhile is_digit p = [d]"
      then show ?thesis using k by (auto simp: number_unbroken_def)
    qed
  qed
  show ?thesis using m u by (simp add: step_line_def)
qed

lemma match_numbered_split:
  assumes "match_numbered l"
  obtains r where "l = takeWhile is_digit l @ CHR ''.'' # r" "takeWhile is_digit l \<noteq> []"
proof -
  from assms obtain c r where d: "dropWhile is_digit l = c # r" and c: "c = CHR ''.''"
    and t: "takeWhile is_digit l \<noteq> []"
    by (auto simp: match_numbered_def split: list.splits)
  have "l = takeWhile is_digit l @ CHR ''.'' # r" using d c by (metis takeWhile_dropWhile_id)
  then show ?thesis using t that by blast
qed

lemma step_line_prefix:
  assumes l: "step_line l" and p: "p \<in> set break_patterns"
    and e: "l = h @ p @ r" and h: "h \<noteq> []"
  shows "step_line h \<and> takeWhile is_digit h = takeWhile is_digit l"
proof -
  let ?ds = "takeWhile is_digit l"
  from l have ml: "match_numbered l" and ul: "number_unbroken l" by (simp_all add: step_line_def)
  from ml obtain r0 where l0: "l = ?ds @ CHR ''.'' # r0" and dne: "?ds \<noteq> []"
    by (rule match_numbered_split)
  have pne: "p \<noteq> []" using p pattern_not_Nil by blast
  have dj: "drop (length h) l = p @ r" using e by simp
  have nlt: "\<not> length h < length ?ds"
  proof
    assume lt: "length h < length ?ds"
    then have "length h \<in> set [1..<length ?ds]" using h by (cases h) auto
    then have "\<not> startswith (drop (length h) l) p"
      using ul p by (auto simp: number_unbroken_def list_all_iff)
    then show False using dj by (simp add: startswith_iff)
  qed
  have neq: "length h \<noteq> length ?ds"
  proof
    assume eq: "length h = length ?ds"
    have "l ! length ?ds = CHR ''.''" using l0 by (metis nth_append_length)
    moreover have "l ! length h = hd p"
      using e pne by (simp add: nth_append hd_conv_nth)
    ultimately show False using eq pattern_hd_digit[OF p] not_digit_dot by simp
  qed
  have gt: "length ?ds < length h" using nlt neq by simp
  have t1: "take (length ?ds) h = ?ds"
  proof -
    have "take (length ?ds) l = ?ds" using l0 by (metis append_eq_conv_conj)
    moreover have "take (length ?ds) l = take (length ?ds) h" using e gt by simp
    ultimately show ?thesis by simp
  qed
  have t2: "h ! length ?ds = CHR ''.''"
  proof -
    have "l ! length ?ds = CHR ''.''" using l0 by (metis nth_append_length)
    moreover have "l ! length ?ds = h ! length ?ds" using e gt by (simp add: nth_append)
    ultimately show ?thesis by simp
  qed
  have "h = take (length ?ds) h @ h ! length ?ds # drop (Suc (length ?ds)) h"
    using gt by (rule id_take_nth_drop)
  then obtain r1 where h1: "h = ?ds @ CHR ''.'' # r1" using t1 t2 by metis
  have dig: "\<forall>c \<in> set ?ds. is_digit c" by (auto dest: set_takeWhileD)
  have th: "takeWhile is_digit h = ?ds"
  proof -
    have "takeWhile is_digit (?ds @ CHR ''.'' # r1) = ?ds"
      using dig not_digit_dot by (simp add: takeWhile_append2)
    then show ?thesis using h1 by simp
  qed
  have mh: "match_numbered h"
  proof -
    have "match_numbered (?ds @ CHR ''.'' # r1)" using dne dig by (rule match_numbered_prefix)
    then show ?thesis using h1 by simp
  qed
  have uh: "number_unbroken h"
    unfolding number_unbroken_def list_all_iff
  proof (intro ballI)
    fix j q assume j: "j \<in> set [1..<length (takeWhile is_digit h)]" and q: "q \<in> set break_patterns"
    have "\<not> startswith (drop j l) q"
      using ul j q th by (auto simp: number_unbroken_def list_all_iff)
    moreover have "drop j l = drop j h @ (p @ r)" using e j th gt by simp
    ultimately show "\<not> startswith (drop j h) q" by (auto simp: startswith_iff)
  qed
  show ?thesis using mh uh th by (simp add: step_line_def)
qed

lemma break_lines_pieces:
  assumes p: "p \<in> set break_patterns" and nl: "NL \<notin> set l" and l: "l = [] \<or> step_line l"
  shows "\<exists>h ts. break_lines p l = h # ts
    \<and> (\<forall>t \<in> set ts. t \<noteq> [] \<and> step_line t \<and> takeWhile is_digit t = takeWhile is_digit p)
    \<and> (h = [] \<or> step_line h \<and> takeWhile is_digit h = takeWhile is_digit l)
    \<and> (h = [] \<longrightarrow> l = [] \<or> startswith l p)
    \<and> (l \<noteq> [] \<longrightarrow> last (h # ts) \<noteq> [])"
proof -
  have pn: "p \<noteq> []" "NL \<notin> set p" using pattern_not_Nil[OF p] by simp_all
  from pieces_line_aux[OF pn refl nl] obtain h ts
    where s: "split_chr NL (replace_ne p (NL # p) l) = h # ts"
      and t: "\<forall>t \<in> set ts. startswith t p"
      and k: "h = l \<and> ts = [] \<or> (\<exists>r. l = h @ p @ r) \<and> ts \<noteq> []"
    by blast
  have a: "\<forall>t \<in> set ts. t \<noteq> [] \<and> step_line t \<and> takeWhile is_digit t = takeWhile is_digit p"
  proof
    fix t assume "t \<in> set ts"
    then obtain r where "t = p @ r" using t by (auto simp: startswith_iff)
    then show "t \<noteq> [] \<and> step_line t \<and> takeWhile is_digit t = takeWhile is_digit p"
      using pn(1) pattern_step_line[OF p, of r] pattern_digits[OF p, of r] by simp
  qed
  have b: "h = [] \<or> step_line h \<and> takeWhile is_digit h = takeWhile is_digit l"
  proof (cases "h = []")
    case True
    then show ?thesis by simp
  next
    case False
    from k show ?thesis
    proof
      assume "h = l \<and> ts = []"
      then show ?thesis using l False by simp
    next
      assume "(\<exists>r. l = h @ p @ r) \<and> ts \<noteq> []"
      then obtain r where e: "l = h @ p @ r" by blast
      then have "step_line l" using l False by auto
      from step_line_prefix[OF this p e False] show ?thesis by simp
    qed
  qed
  have c: "h = [] \<longrightarrow> l = [] \<or> startswith l p" using k by (auto simp: startswith_iff)
  have d: "l \<noteq> [] \<longrightarrow> last (h # ts) \<noteq> []"
  proof
    assume ln: "l \<noteq> []"
    from k show "last (h # ts) \<noteq> []"
    proof
      assume "h = l \<and> ts = []"
      then show ?thesis using ln by simp
    next
      assume "(\<exists>r. l = h @ p @ r) \<and> ts \<noteq> []"
      then have "ts \<noteq> []" by simp
      then have "last (h # ts) \<in> set ts" by simp
      then show ?thesis using a by blast
    qed
  qed
  have "break_lines p l = h # ts" using s by (simp add: break_lines_def)
  then show ?thesis using a b c d by blast
qed

lemma break_lines_Nil: "break_lines p [] = [[]]"
  by (simp add: break_lines_def)

lemma break_lines_not_Nil: "break_lines p l \<noteq> []"
  by (simp add: break_lines_def split_chr_not_Nil)

lemma successively_nonempty:
  "\<forall>x \<in> set xs. x \<noteq> [] \<Longrightarrow> successively (after_blank D) xs"
proof (induction xs rule: induct_list012)
  case 1
  then show ?case by simp
next
  case (2 x)
  then show ?case by simp
next
  case (3 x y zs)
  then show ?case by (simp add: after_blank_def)
qed

lemma break_lines_successively:
  assumes p: "p \<in> set break_patterns" and nl: "NL \<notin> set l" and l: "l = [] \<or> step_line l"
  shows "successively (after_blank (insert p D)) (break_lines p l)"
proof -
  from break_lines_pieces[OF p nl l] obtain h ts where s: "break_lines p l = h # ts"
    and a: "\<forall>t \<in> set ts. t \<noteq> [] \<and> step_line t \<and> takeWhile is_digit t = takeWhile is_digit p"
    by blast
  have "successively (after_blank (insert p D)) ts" using a by (intro successively_nonempty) blast
  moreover have "ts \<noteq> [] \<longrightarrow> after_blank (insert p D) h (hd ts)"
    using a by (cases ts) (auto simp: after_blank_def)
  ultimately show ?thesis using s by (auto simp: successively_Cons)
qed

lemma break_lines_hd:
  assumes p: "p \<in> set break_patterns" and pd: "p \<notin> D" and d: "D \<subseteq> set break_patterns"
    and nl: "NL \<notin> set m" and m: "step_line m" and mn: "m \<noteq> []"
    and k: "takeWhile is_digit m \<in> takeWhile is_digit ` D"
  shows "hd (break_lines p m) \<noteq> []
         \<and> takeWhile is_digit (hd (break_lines p m)) \<in> takeWhile is_digit ` insert p D"
proof -
  from break_lines_pieces[OF p nl disjI2[OF m]] obtain h ts where s: "break_lines p m = h # ts"
    and b: "h = [] \<or> step_line h \<and> takeWhile is_digit h = takeWhile is_digit m"
    and c: "h = [] \<longrightarrow> m = [] \<or> startswith m p"
    by blast
  have "h \<noteq> []"
  proof
    assume "h = []"
    then obtain r where "m = p @ r" using c mn by (auto simp: startswith_iff)
    then have "takeWhile is_digit m = takeWhile is_digit p" using pattern_digits[OF p] by simp
    then obtain q where q: "q \<in> D" and "takeWhile is_digit q = takeWhile is_digit p"
      using k by auto
    then have "q = p" using pattern_key_inj[of q p] p d by auto
    then show False using q pd by simp
  qed
  then show ?thesis using b s k by auto
qed

lemma step_over_lines:
  assumes p: "p \<in> set break_patterns" and pd: "p \<notin> D" and d: "D \<subseteq> set break_patterns"
  shows "\<forall>l \<in> set L. NL \<notin> set l \<and> (l = [] \<or> step_line l) \<Longrightarrow> successively (after_blank D) L
    \<Longrightarrow> successively (after_blank (insert p D)) (concat (map (break_lines p) L))"
proof (induction L)
  case Nil
  then show ?case by simp
next
  case (Cons l L)
  have nl: "NL \<notin> set l" and ll: "l = [] \<or> step_line l" using Cons.prems(1) by simp_all
  have sl: "successively (after_blank D) L" using Cons.prems(2) by (auto simp: successively_Cons)
  have ih: "successively (after_blank (insert p D)) (concat (map (break_lines p) L))"
    using Cons.IH Cons.prems(1) sl by simp
  have a: "successively (after_blank (insert p D)) (break_lines p l)"
    using p nl ll by (rule break_lines_successively)
  have b: "concat (map (break_lines p) L) \<noteq> []
           \<longrightarrow> after_blank (insert p D) (last (break_lines p l)) (hd (concat (map (break_lines p) L)))"
  proof
    assume "concat (map (break_lines p) L) \<noteq> []"
    then obtain m L' where L: "L = m # L'" by (cases L) auto
    have hdc: "hd (concat (map (break_lines p) L)) = hd (break_lines p m)"
      using L break_lines_not_Nil[of p m] by simp
    show "after_blank (insert p D) (last (break_lines p l)) (hd (concat (map (break_lines p) L)))"
    proof (cases "last (break_lines p l) = []")
      case False
      then show ?thesis by (simp add: after_blank_def)
    next
      case True
      from break_lines_pieces[OF p nl ll] obtain h ts where s: "break_lines p l = h # ts"
        and e: "l \<noteq> [] \<longrightarrow> last (h # ts) \<noteq> []" by blast
      have "l = []" using True s e by auto
      then have "after_blank D [] m" using Cons.prems(2) L by simp
      then have mn: "m \<noteq> []" and k: "takeWhile is_digit m \<in> takeWhile is_digit ` D"
        by (simp_all add: after_blank_def)
      have nm: "NL \<notin> set m" and sm: "step_line m" using Cons.prems(1) L mn by auto
      from break_lines_hd[OF p pd d nm sm mn k] show ?thesis
        using hdc by (simp add: after_blank_def)
    qed
  qed
  have c: "concat (map (break_lines p) (l # L)) = break_lines p l @ concat (map (break_lines p) L)"
    by simp
  have "successively (after_blank (insert p D))
          (break_lines p l @ concat (map (break_lines p) L))"
    unfolding successively_append_iff using a ih b by blast
  then show ?case unfolding c .
qed

lemma step_lines_ok:
  assumes p: "p \<in> set break_patterns"
    and L: "\<forall>l \<in> set L. NL \<notin> set l \<and> (l = [] \<or> step_line l)"
  shows "\<forall>l \<in> set (concat (map (break_lines p) L)). NL \<notin> set l \<and> (l = [] \<or> step_line l)"
proof
  fix x assume "x \<in> set (concat (map (break_lines p) L))"
  then obtain l where l: "l \<in> set L" and x: "x \<in> set (break_lines p l)" by auto
  have nl: "NL \<notin> set l" and ll: "l = [] \<or> step_line l" using L l by simp_all
  from break_lines_pieces[OF p nl ll] obtain h ts where s: "break_lines p l = h # ts"
    and a: "\<forall>t \<in> set ts. t \<noteq> [] \<and> step_line t \<and> takeWhile is_digit t = takeWhile is_digit p"
    and b: "h = [] \<or> step_line h \<and> takeWhile is_digit h = takeWhile is_digit l"
    by blast
  have "NL \<notin> set x" using x split_chr_no_sep[of x NL] unfolding break_lines_def by blast
  moreover have "x = [] \<or> step_line x" using x s a b by auto
  ultimately show "NL \<notin> set x \<and> (x = [] \<or> step_line x)" by simp
qed

lemma step_last:
  assumes p: "p \<in> set break_patterns"
    and L: "\<forall>l \<in> set L. NL \<notin> set l \<and> (l = [] \<or> step_line l)"
    and ne: "L \<noteq> []" and la: "last L \<noteq> []"
  shows "last (concat (map (break_lines p) L)) \<noteq> []"
proof -
  obtain L' l where LL: "L = L' @ [l]" using ne by (metis rev_exhaust)
  have nl: "NL \<notin> set l" and ll: "l = [] \<or> step_line l" and ln: "l \<noteq> []" using L la LL by simp_all
  from break_lines_pieces[OF p nl ll] obtain h ts where s: "break_lines p l = h # ts"
    and e: "l \<noteq> [] \<longrightarrow> last (h # ts) \<noteq> []" by blast
  have "concat (map (break_lines p) L) = concat (map (break_lines p) L') @ break_lines p l"
    using LL by simp
  then have "last (concat (map (break_lines p) L)) = last (break_lines p l)"
    using break_lines_not_Nil[of p l] by simp
  then show ?thesis using s e ln by simp
qed

lemma renumber_breaks_patterns:
  "renumber_breaks s = fold (\<lambda>p acc. replace_ne p (NL # p) acc) break_patterns s"
  by (simp add: renumber_breaks_def break_patterns_def fold_map comp_def replace_def
                show_nat_not_Nil)

lemma split_break:
  assumes "p \<in> set break_patterns"
  shows "split_chr NL (replace_ne p (NL # p) s) = concat (map (break_lines p) (split_chr NL s))"
proof -
  have pn: "p \<noteq> []" "NL \<notin> set p" using pattern_not_Nil[OF assms] by simp_all
  have "(\<lambda>l. split_chr NL (replace_ne p (NL # p) l)) = break_lines p"
    by (rule ext) (simp add: break_lines_def)
  then show ?thesis using split_replace_lines[OF pn refl, of s] by simp
qed

lemma loop_invariant:
  "set ps \<subseteq> set break_patterns \<Longrightarrow> distinct ps \<Longrightarrow> D \<subseteq> set break_patterns
   \<Longrightarrow> D \<inter> set ps = {}
   \<Longrightarrow> \<forall>l \<in> set (split_chr NL s). l = [] \<or> step_line l
   \<Longrightarrow> successively (after_blank D) (split_chr NL s)
   \<Longrightarrow> last (split_chr NL s) \<noteq> []
   \<Longrightarrow> (\<forall>l \<in> set (split_chr NL (fold (\<lambda>p acc. replace_ne p (NL # p) acc) ps s)).
          l = [] \<or> step_line l)
       \<and> successively (after_blank (D \<union> set ps))
           (split_chr NL (fold (\<lambda>p acc. replace_ne p (NL # p) acc) ps s))
       \<and> last (split_chr NL (fold (\<lambda>p acc. replace_ne p (NL # p) acc) ps s)) \<noteq> []"
proof (induction ps arbitrary: D s)
  case Nil
  then show ?case by simp
next
  case (Cons p ps)
  let ?s = "replace_ne p (NL # p) s"
  have p: "p \<in> set break_patterns" and pd: "p \<notin> D" using Cons.prems(1,4) by auto
  have L: "\<forall>l \<in> set (split_chr NL s). NL \<notin> set l \<and> (l = [] \<or> step_line l)"
    using Cons.prems(5) split_chr_no_sep[of _ NL s] by blast
  have sp: "split_chr NL ?s = concat (map (break_lines p) (split_chr NL s))"
    using p by (rule split_break)
  have a: "\<forall>l \<in> set (split_chr NL ?s). l = [] \<or> step_line l"
    using step_lines_ok[OF p L] sp by simp
  have b: "successively (after_blank (insert p D)) (split_chr NL ?s)"
    using step_over_lines[OF p pd Cons.prems(3) L Cons.prems(6)] sp by simp
  have c: "last (split_chr NL ?s) \<noteq> []"
    using step_last[OF p L split_chr_not_Nil Cons.prems(7)] sp by simp
  have d: "set ps \<subseteq> set break_patterns" "distinct ps" "insert p D \<subseteq> set break_patterns"
          "insert p D \<inter> set ps = {}"
    using Cons.prems(1,2,3,4) by auto
  from Cons.IH[OF d a b c] show ?case by simp
qed

lemma join_Cons: "xs \<noteq> [] \<Longrightarrow> join sep (x # xs) = x @ sep @ join sep xs"
  by (cases xs) simp_all

lemma collapse_plain: "NL \<notin> set x \<Longrightarrow> replace_ne [NL, NL] [NL] x = x"
  by (induction x) auto

lemma collapse_double:
  "NL \<notin> set x \<Longrightarrow> replace_ne [NL, NL] [NL] (x @ NL # NL # y) = x @ NL # replace_ne [NL, NL] [NL] y"
  by (induction x) auto

lemma collapse_single:
  "NL \<notin> set x \<Longrightarrow> y = [] \<or> hd y \<noteq> NL
   \<Longrightarrow> replace_ne [NL, NL] [NL] (x @ NL # y) = x @ NL # replace_ne [NL, NL] [NL] y"
proof (induction x)
  case Nil
  then show ?case by (cases y) auto
next
  case (Cons c x)
  then show ?case by auto
qed

lemma hd_join: "L \<noteq> [] \<Longrightarrow> hd L \<noteq> [] \<Longrightarrow> join sep L \<noteq> [] \<and> hd (join sep L) = hd (hd L)"
proof (cases L)
  case Nil
  assume "L \<noteq> []"
  then show ?thesis using Nil by simp
next
  case (Cons x xs)
  assume "hd L \<noteq> []"
  then show ?thesis using Cons by (cases xs) auto
qed

lemma collapse_lines:
  "\<forall>l \<in> set L. NL \<notin> set l \<Longrightarrow> successively (\<lambda>x y. x = [] \<longrightarrow> y \<noteq> []) L \<Longrightarrow> L \<noteq> []
   \<Longrightarrow> last L \<noteq> []
   \<Longrightarrow> replace_ne [NL, NL] [NL] (join [NL] L)
         = (if hd L = [] then [NL] else []) @ join [NL] (filter (\<lambda>l. l \<noteq> []) L)"
proof (induction L rule: induct_list012)
  case 1
  then show ?case by simp
next
  case (2 x)
  then show ?case by (simp add: collapse_plain)
next
  case (3 x y zs)
  let ?col = "replace_ne [NL, NL] [NL]"
  let ?F = "filter (\<lambda>l. l \<noteq> [])"
  have nx: "NL \<notin> set x" and ny: "NL \<notin> set y" using "3.prems"(1) by simp_all
  have ih: "?col (join [NL] (y # zs)) = (if y = [] then [NL] else []) @ join [NL] (?F (y # zs))"
    using "3.IH"(2) "3.prems" by (simp add: successively_Cons)
  have j: "join [NL] (x # y # zs) = x @ NL # join [NL] (y # zs)" by simp
  show ?case
  proof (cases "y = []")
    case False
    have h: "join [NL] (y # zs) \<noteq> [] \<and> hd (join [NL] (y # zs)) = hd y"
      using hd_join[of "y # zs" "[NL]"] False by simp
    have "hd y \<noteq> NL" using ny False by (cases y) auto
    then have "?col (x @ NL # join [NL] (y # zs)) = x @ NL # ?col (join [NL] (y # zs))"
      using h nx by (intro collapse_single) auto
    then have "?col (join [NL] (x # y # zs)) = x @ NL # join [NL] (?F (y # zs))"
      using ih False j by simp
    moreover have "?F (y # zs) \<noteq> []" using False by simp
    ultimately show ?thesis by (cases "x = []") (simp_all add: join_Cons)
  next
    case True
    have xn: "x \<noteq> []" using "3.prems"(2) True by simp
    have zn: "zs \<noteq> []" using "3.prems"(4) True by auto
    have hz: "hd zs \<noteq> []" using "3.prems"(2) True zn by (cases zs) auto
    have nz: "NL \<notin> set (hd zs)" using "3.prems"(1) zn by (cases zs) auto
    have h: "join [NL] zs \<noteq> [] \<and> hd (join [NL] zs) = hd (hd zs)"
      using hd_join[OF zn hz] by simp
    have hn: "hd (hd zs) \<noteq> NL" using nz hz by (cases "hd zs") auto
    have jy: "join [NL] (y # zs) = NL # join [NL] zs" using True zn by (simp add: join_Cons)
    have "?col (NL # join [NL] zs) = NL # ?col (join [NL] zs)"
      using collapse_single[of "[]" "join [NL] zs"] h hn by simp
    then have cz: "?col (join [NL] zs) = join [NL] (?F zs)" using ih jy True by simp
    have "?col (join [NL] (x # y # zs)) = x @ NL # ?col (join [NL] zs)"
      using collapse_double[OF nx, of "join [NL] zs"] j jy by simp
    moreover have "?F zs \<noteq> []" using hz zn by (cases zs) auto
    ultimately show ?thesis using cz xn True by (simp add: join_Cons)
  qed
qed

lemma relines_pos:
  "0 < i \<Longrightarrow> \<forall>l \<in> set ls. strip l \<noteq> [] \<longrightarrow> match_numbered (strip l)
   \<Longrightarrow> relines i ls acc
        = acc @ concat (map (\<lambda>l. NL # pad_number l) (filter (\<lambda>l. l \<noteq> []) (map strip ls)))"
proof (induction ls arbitrary: i acc)
  case Nil
  then show ?case by simp
next
  case (Cons l ls)
  have ih: "relines (Suc i) ls acc'
              = acc' @ concat (map (\<lambda>l. NL # pad_number l) (filter (\<lambda>l. l \<noteq> []) (map strip ls)))"
    for acc'
    using Cons.IH[of "Suc i" acc'] Cons.prems(2) by simp
  show ?case
  proof (cases "strip l = []")
    case True
    then show ?thesis using ih by simp
  next
    case False
    then have "match_numbered (strip l)" using Cons.prems(2) by simp
    then show ?thesis using False ih Cons.prems(1) by (simp add: Let_def pad_number_def)
  qed
qed

lemma concat_lines:
  "concat (map (\<lambda>l. NL # f l) xs) = (if xs = [] then [] else NL # join [NL] (map f xs))"
proof (induction xs)
  case Nil
  then show ?case by simp
next
  case (Cons x xs)
  then show ?case by (cases xs) simp_all
qed

lemma relines_valid:
  assumes "validate_activity_format s"
  shows "relines 0 (split_chr NL s) [] = join [NL] (map pad_number (stripped_lines s))
       \<or> relines 0 (split_chr NL s) [] = NL # join [NL] (map pad_number (stripped_lines s))"
proof -
  have ne: "stripped_lines s \<noteq> []" and num: "\<forall>l \<in> set (stripped_lines s). match_numbered l"
    using assms by (auto simp: validate_activity_format_def Let_def list_all_iff split: if_splits)
  obtain l rest where ls: "split_chr NL s = l # rest"
    using split_chr_not_Nil[of NL s] by (cases "split_chr NL s") auto
  have all: "\<forall>l \<in> set (l # rest). strip l \<noteq> [] \<longrightarrow> match_numbered (strip l)"
    using num ls by (auto simp: stripped_lines_def)
  then have r: "\<forall>l \<in> set rest. strip l \<noteq> [] \<longrightarrow> match_numbered (strip l)" by simp
  let ?R = "filter (\<lambda>l. l \<noteq> []) (map strip rest)"
  have tail: "relines (Suc 0) rest acc = acc @ concat (map (\<lambda>l. NL # pad_number l) ?R)" for acc
    using relines_pos[of "Suc 0" rest acc] r by simp
  show ?thesis
  proof (cases "strip l = []")
    case True
    then have sl: "stripped_lines s = ?R" using ls by (simp add: stripped_lines_def)
    have "relines 0 (split_chr NL s) [] = concat (map (\<lambda>l. NL # pad_number l) ?R)"
      using ls True tail[of "[]"] by simp
    then show ?thesis using sl ne by (simp add: concat_lines)
  next
    case False
    then have sl: "stripped_lines s = strip l # ?R" using ls by (simp add: stripped_lines_def)
    have "relines 0 (split_chr NL s) []
            = pad_number (strip l) @ concat (map (\<lambda>l. NL # pad_number l) ?R)"
      using ls False tail by (simp add: Let_def pad_number_def)
    then have "relines 0 (split_chr NL s) [] = join [NL] (map pad_number (strip l # ?R))"
      by (cases "?R = []") (simp_all add: concat_lines join_Cons)
    then show ?thesis using sl by simp
  qed
qed

lemma fold_leading_NL:
  "set ps \<subseteq> set break_patterns
   \<Longrightarrow> fold (\<lambda>p acc. replace_ne p (NL # p) acc) ps (NL # s)
        = NL # fold (\<lambda>p acc. replace_ne p (NL # p) acc) ps s"
proof (induction ps arbitrary: s)
  case Nil
  then show ?case by simp
next
  case (Cons p ps)
  have "p \<in> set break_patterns" using Cons.prems by simp
  then have pn: "p \<noteq> []" "NL \<notin> set p" using pattern_not_Nil by blast+
  have "\<not> startswith (NL # s) p"
  proof
    assume "startswith (NL # s) p"
    then have "hd p = NL" using startswith_hd[of "NL # s" p] pn(1) by simp
    then show False using pn by (cases p) auto
  qed
  then show ?case using Cons by simp
qed

lemma lstrip_collapse_NL:
  "lstrip_chr NL (replace_ne [NL, NL] [NL] (NL # s)) = lstrip_chr NL (replace_ne [NL, NL] [NL] s)"
proof (induction s)
  case Nil
  then show ?case by (simp add: lstrip_chr_def)
next
  case (Cons c s)
  show ?case
  proof (cases "c = NL")
    case True
    then show ?thesis using Cons by (simp add: lstrip_chr_def)
  next
    case False
    then show ?thesis by (simp add: lstrip_chr_def)
  qed
qed

lemma join_split_chr: "join [d] (split_chr d s) = s"
proof (induction s)
  case Nil
  then show ?case by simp
next
  case (Cons c s)
  obtain h t where ht: "split_chr d s = h # t"
    using split_chr_not_Nil[of d s] by (cases "split_chr d s") auto
  show ?case
  proof (cases "c = d")
    case True
    then show ?thesis using Cons ht by simp
  next
    case False
    then show ?thesis using Cons ht by (cases t) simp_all
  qed
qed

lemma step_line_digit: "step_line l \<Longrightarrow> l \<noteq> [] \<and> hd l \<noteq> NL"
proof -
  assume "step_line l"
  then have "takeWhile is_digit l \<noteq> []" by (simp add: step_line_def match_numbered_def)
  then show ?thesis using is_digit_not_NL by (cases l) (auto split: if_splits)
qed

lemma broken_lines_numbered:
  assumes P: "P \<noteq> []" "\<forall>l \<in> set P. NL \<notin> set l \<and> step_line l"
  shows "\<exists>F. F \<noteq> [] \<and> (\<forall>l \<in> set F. NL \<notin> set l \<and> step_line l)
           \<and> lstrip_chr NL (replace_ne [NL, NL] [NL] (renumber_breaks (join [NL] P))) = join [NL] F"
proof -
  let ?T = "join [NL] P"
  let ?L = "split_chr NL (renumber_breaks ?T)"
  let ?F = "filter (\<lambda>l. l \<noteq> []) ?L"
  have sp: "split_chr NL ?T = P" using P by (intro split_chr_join) auto
  have pn: "\<forall>l \<in> set P. l \<noteq> []" using P(2) step_line_digit by blast
  have i1: "\<forall>l \<in> set (split_chr NL ?T). l = [] \<or> step_line l" using sp P(2) by simp
  have i2: "successively (after_blank {}) (split_chr NL ?T)"
    using sp pn by (simp add: successively_nonempty)
  have i3: "last (split_chr NL ?T) \<noteq> []" using sp pn P(1) by simp
  have d: "distinct break_patterns" by (simp add: break_patterns_eq)
  from loop_invariant[OF subset_refl d _ _ i1 i2 i3, of ] 
  have a: "\<forall>l \<in> set ?L. l = [] \<or> step_line l"
    and b: "successively (after_blank (set break_patterns)) ?L"
    and c: "last ?L \<noteq> []"
    by (simp_all add: renumber_breaks_patterns)
  have b': "successively (\<lambda>x y. x = [] \<longrightarrow> y \<noteq> []) ?L"
    using b by (rule successively_mono) (simp add: after_blank_def)
  have nl: "\<forall>l \<in> set ?L. NL \<notin> set l" using split_chr_no_sep by blast
  have col: "replace_ne [NL, NL] [NL] (join [NL] ?L)
               = (if hd ?L = [] then [NL] else []) @ join [NL] ?F"
    using nl b' split_chr_not_Nil c by (rule collapse_lines)
  have fne: "?F \<noteq> []"
  proof -
    have "last ?L \<in> set ?L" using split_chr_not_Nil by (intro last_in_set)
    then have "last ?L \<in> set ?F" using c by simp
    then show ?thesis by (metis empty_iff list.set(1))
  qed
  have fs: "\<forall>l \<in> set ?F. NL \<notin> set l \<and> step_line l" using a nl by auto
  have "hd ?F \<in> set ?F" using fne by (intro hd_in_set)
  then have "step_line (hd ?F)" using fs by blast
  then have h: "hd ?F \<noteq> [] \<and> hd (hd ?F) \<noteq> NL" by (rule step_line_digit)
  then have "join [NL] ?F \<noteq> [] \<and> hd (join [NL] ?F) \<noteq> NL"
    using hd_join[OF fne, of "[NL]"] by simp
  then have ls: "lstrip_chr NL ((if hd ?L = [] then [NL] else []) @ join [NL] ?F) = join [NL] ?F"
    by (cases "join [NL] ?F") (auto simp: lstrip_chr_def)
  have "lstrip_chr NL (replace_ne [NL, NL] [NL] (renumber_breaks ?T)) = join [NL] ?F"
    using col ls by (simp add: join_split_chr)
  then show ?thesis using fne fs by blast
qed

lemma pad_number_line:
  assumes "l \<in> set (stripped_lines s)" "match_numbered l"
  shows "NL \<notin> set (pad_number l) \<and> match_numbered (pad_number l)"
  using stripped_lines_clean[OF assms(1)] assms(2) match_numbered_append[of l "'' ''"]
  by (simp add: pad_number_def)

lemma format_text_valid:
  assumes v: "validate_activity_format (clean_text s)"
    and u: "list_all number_unbroken (map pad_number (stripped_lines (clean_text s)))"
  shows "\<exists>F. F \<noteq> [] \<and> (\<forall>l \<in> set F. NL \<notin> set l \<and> step_line l) \<and> format_text s = join [NL] F"
proof -
  let ?c = "clean_text s"
  let ?P = "map pad_number (stripped_lines ?c)"
  have ne: "stripped_lines ?c \<noteq> []" and num: "\<forall>l \<in> set (stripped_lines ?c). match_numbered l"
    using v by (auto simp: validate_activity_format_def Let_def list_all_iff split: if_splits)
  have P1: "?P \<noteq> []" using ne by simp
  have P2: "\<forall>l \<in> set ?P. NL \<notin> set l \<and> step_line l"
    using num u pad_number_line[of _ ?c] by (auto simp: step_line_def list_all_iff)
  from broken_lines_numbered[OF P1 P2] obtain F where F: "F \<noteq> []"
    "\<forall>l \<in> set F. NL \<notin> set l \<and> step_line l"
    "lstrip_chr NL (replace_ne [NL, NL] [NL] (renumber_breaks (join [NL] ?P))) = join [NL] F"
    by blast
  have "lstrip_chr NL (replace_ne [NL, NL] [NL] (renumber_breaks (relines 0 (split_chr NL ?c) [])))
          = join [NL] F"
  proof -
    from relines_valid[OF v] show ?thesis
    proof
      assume "relines 0 (split_chr NL ?c) [] = join [NL] ?P"
      then show ?thesis using F(3) by simp
    next
      assume "relines 0 (split_chr NL ?c) [] = NL # join [NL] ?P"
      then have "renumber_breaks (relines 0 (split_chr NL ?c) []) = NL # renumber_breaks (join [NL] ?P)"
        using fold_leading_NL[OF subset_refl] by (simp add: renumber_breaks_patterns)
      then show ?thesis using F(3) lstrip_collapse_NL by simp
    qed
  qed
  then have "format_text s = join [NL] F" using v by (simp add: format_text_def Let_def replace_def)
  then show ?thesis using F(1,2) by blast
qed

lemma step_lines_numbered:
  assumes "F \<noteq> []" "\<forall>l \<in> set F. NL \<notin> set l \<and> step_line l"
  shows "join [NL] F \<noteq> []
         \<and> list_all (\<lambda>l. match_numbered l \<and> strip l \<noteq> []) (split_chr NL (join [NL] F))"
proof -
  have "split_chr NL (join [NL] F) = F" using assms by (intro split_chr_join) auto
  moreover have "\<forall>l \<in> set F. match_numbered l \<and> strip l \<noteq> []"
    using assms(2) match_numbered_not_blank by (auto simp: step_line_def)
  moreover have "hd F \<noteq> []" using assms step_line_digit[of "hd F"] hd_in_set[OF assms(1)] by blast
  ultimately show ?thesis using hd_join[OF assms(1), of "[NL]"] by (simp add: list_all_iff)
qed

subsection \<open>The activity normalizer\<close>

text \<open>
  Claim C3 (as amended). The invariant claimed for every input fails:
  \<^verbatim>\<open>5. x\<close> comes back as \<^verbatim>\<open>5. x\<close>, \<^verbatim>\<open>5.x\<close> as \<^verbatim>\<open>5.x\<close>, and two steps
  numbered 1 stay two steps numbered 1. What holds: for every input value, unless the
  cleaned text is a list of numbered lines one of which starts with a number that the
  line-break loop cuts (a number that, with the dot and the space after it, ends in one of
  \<^verbatim>\<open>1. \<close> to \<^verbatim>\<open>10. \<close> after its first digit, as \<^verbatim>\<open>12. x\<close> does: the slip of
  claim C4), the result is empty or a sequence of lines joined by line feeds, none of them
  blank, each starting with an integer and a dot (\<^verbatim>\<open>^\d+\.\<close>); for a text that is a list
  of numbered lines the result is not empty. When the cleaned text is not already a list
  of numbered lines, the result is the merged steps joined by line feeds, a step that
  starts with a number verbatim and a step that does not with \<^verbatim>\<open>1. \<close> in front.
  Numbers starting at 1, ascending by 1 or without duplicates, and white space after the
  dot, are not promised.
\<close>

theorem format_activity_lines:
  assumes "validate_activity_format (clean_text (coerce_activity pstr a))
           \<longrightarrow> list_all number_unbroken
                 (map pad_number (stripped_lines (clean_text (coerce_activity pstr a))))"
  shows "(format_activity pstr a = []
          \<or> list_all (\<lambda>l. match_numbered l \<and> strip l \<noteq> [])
               (split_chr NL (format_activity pstr a)))
       \<and> (validate_activity_format (clean_text (coerce_activity pstr a))
            \<longrightarrow> format_activity pstr a \<noteq> [])
       \<and> (\<not> validate_activity_format (clean_text (coerce_activity pstr a))
            \<longrightarrow> format_activity pstr a
                 = join [NL] (map (\<lambda>m. if match_numbered m then m else ''1. '' @ m)
                     (merge_lines (stripped_lines (clean_text (coerce_activity pstr a))) [] [])))"
proof (cases "validate_activity_format (clean_text (coerce_activity pstr a))")
  case True
  then have "list_all number_unbroken
               (map pad_number (stripped_lines (clean_text (coerce_activity pstr a))))"
    using assms by simp
  from format_text_valid[OF True this] obtain F where F: "F \<noteq> []"
    "\<forall>l \<in> set F. NL \<notin> set l \<and> step_line l" "format_activity pstr a = join [NL] F"
    by (auto simp: format_activity_def)
  show ?thesis using True step_lines_numbered[OF F(1,2)] F(3) by simp
next
  case False
  let ?steps = "repair_steps (clean_text (coerce_activity pstr a))"
  have out: "format_activity pstr a = join [NL] ?steps"
    using False by (simp add: format_activity_def format_text_repair)
  have ok: "\<forall>l \<in> set ?steps. step_ok l \<and> match_numbered l" by (rule repair_steps_ok)
  have a: "format_activity pstr a = []
           \<or> list_all (\<lambda>l. match_numbered l \<and> strip l \<noteq> [])
                (split_chr NL (format_activity pstr a))"
  proof (cases "?steps = []")
    case True
    then show ?thesis using out by simp
  next
    case ne: False
    have "\<forall>l \<in> set ?steps. NL \<notin> set l" using ok by (simp add: step_ok_def)
    then have "split_chr NL (join [NL] ?steps) = ?steps" using ne by (simp add: split_chr_join)
    then show ?thesis using out ok match_numbered_not_blank by (simp add: list_all_iff)
  qed
  show ?thesis using False a out by (simp add: repair_steps_eq)
qed

theorem format_activity_lines_witness:
  "list_all number_unbroken
     (map pad_number (stripped_lines (clean_text (coerce_activity python_str (JStr ''3. mix 1. stir'')))))
   \<and> format_activity python_str (JStr ''3. mix 1. stir'') = ''3. mix '' @ [NL] @ ''1. stir''
   \<and> list_all (\<lambda>l. match_numbered l \<and> strip l \<noteq> [])
        (split_chr NL (format_activity python_str (JStr ''3. mix 1. stir'')))
   \<and> \<not> validate_activity_format
         (clean_text (coerce_activity python_str (JStr (''intro'' @ [NL] @ ''7. a'' @ [NL] @ ''8. b''))))
   \<and> format_activity python_str (JStr (''intro'' @ [NL] @ ''7. a'' @ [NL] @ ''8. b''))
       = ''1. intro'' @ [NL] @ ''7. a'' @ [NL] @ ''8. b''
   \<and> \<not> number_unbroken ''12. x''
   \<and> \<not> list_all match_numbered (split_chr NL (format_activity python_str (JStr ''12. x'')))"
proof -
  have h: "list_all number_unbroken
     (map pad_number (stripped_lines (clean_text (coerce_activity python_str (JStr ''3. mix 1. stir'')))))"
    by code_simp
  have e: "format_activity python_str (JStr ''3. mix 1. stir'') = ''3. mix '' @ [NL] @ ''1. stir''"
    by code_simp
  have n: "format_activity python_str (JStr ''3. mix 1. stir'') \<noteq> []" by code_simp
  from format_activity_lines[of python_str "JStr ''3. mix 1. stir''"] h n
  have l: "list_all (\<lambda>l. match_numbered l \<and> strip l \<noteq> [])
             (split_chr NL (format_activity python_str (JStr ''3. mix 1. stir'')))"
    by blast
  have v: "\<not> validate_activity_format
         (clean_text (coerce_activity python_str (JStr (''intro'' @ [NL] @ ''7. a'' @ [NL] @ ''8. b''))))"
    by code_simp
  have r: "format_activity python_str (JStr (''intro'' @ [NL] @ ''7. a'' @ [NL] @ ''8. b''))
             = ''1. intro'' @ [NL] @ ''7. a'' @ [NL] @ ''8. b''"
    by code_simp
  have u: "\<not> number_unbroken ''12. x''" by code_simp
  have b: "\<not> list_all match_numbered (split_chr NL (format_activity python_str (JStr ''12. x'')))"
    by code_simp
  show ?thesis using h e l v r u b by simp
qed

theorem format_activity_invariant_counterexample:
  "format_activity python_str (JStr ''5. x'') = ''5. x''
   \<and> \<not> spec_normalized (format_activity python_str (JStr ''5. x''))
   \<and> format_activity python_str (JStr ''5.x'') = ''5.x''
   \<and> \<not> list_all match_step (split_chr NL (format_activity python_str (JStr ''5.x'')))
   \<and> format_activity python_str (JStr (''1. a'' @ [NL] @ ''1. b'')) = ''1. a'' @ [NL] @ ''1. b''"
  by code_simp

text \<open>
  Claim C4. A text of eleven steps in the specification's normal form does not come back
  unchanged: the replacement of \<^verbatim>\<open>1. \<close> by a line feed and \<^verbatim>\<open>1. \<close> also hits the
  last two characters of \<^verbatim>\<open>11. \<close>, and the eleventh line is split into \<^verbatim>\<open>1\<close> and
  \<^verbatim>\<open>1. k\<close>.
\<close>

theorem format_activity_eleven_steps:
  "spec_normalized eleven_steps
   \<and> format_activity python_str (JStr eleven_steps) = join [NL]
       [''1. a'', ''2. b'', ''3. c'', ''4. d'', ''5. e'', ''6. f'',
        ''7. g'', ''8. h'', ''9. i'', ''10. j'', ''1'', ''1. k'']
   \<and> format_activity python_str (JStr eleven_steps) \<noteq> eleven_steps"
  by code_simp

text \<open>
  Claim C8 (as amended). The text \<^verbatim>\<open>Do the thing. Then 2. do another\<close> is one line
  with no number in front, so the repair branch numbers it as one step: the result is the
  single line \<^verbatim>\<open>1. Do the thing. Then 2. do another\<close>, not two lines. The number inside
  the line starts no step, since only a number at the start of a line does.
\<close>

theorem format_activity_embedded_number:
  "format_activity python_str (JStr ''Do the thing. Then 2. do another'')
     = ''1. Do the thing. Then 2. do another''"
  by code_simp

theorem format_activity_embedded_number_counterexample:
  "length (split_chr NL (format_activity python_str (JStr ''Do the thing. Then 2. do another'')))
     \<noteq> 2"
  by code_simp

subsection \<open>The document walker\<close>

lemma format_activity_str: "format_activity pstr (JStr s) = format_text s"
  by (simp add: format_activity_def coerce_activity_def)

lemma blank_fix_practice: "blank_task (fix_practice t) = blank_task t"
  by (simp add: blank_task_def fix_practice_def)

lemma blank_fix_week: "blank_week (fix_week w) = blank_week w"
  by (simp add: blank_week_def fix_week_def blank_fix_practice)

lemma week_number_fix_week: "week_number (fix_week w) = week_number w"
  by (simp add: fix_week_def)

lemma process_quests_map_filter:
  "process_quests e cm qs acc = acc @ List.map_filter (process_quest e cm) qs"
  by (induction qs arbitrary: acc) (simp_all add: List.map_filter_simps split: option.splits)

lemma process_weeks_map_filter:
  "process_weeks e cm ws acc = acc @ List.map_filter (process_week e cm) ws"
  by (induction ws arbitrary: acc) (simp_all add: List.map_filter_simps split: option.splits)

lemma check_fields_iff:
  "check_fields data fs \<longleftrightarrow> list_all (\<lambda>f. py_contains data f = Some True) fs"
  by (induction fs) (auto split: option.splits bool.splits)

lemma process_week_Some:
  assumes "process_week e cm w = Some p"
  shows "has_week_fields w \<and> input_week_number e w = Some (week_number p)"
  using assms
  by (auto simp: process_week_def has_week_fields_def check_fields_iff input_week_number_def Let_def
           split: if_splits option.splits)

lemma map_filter_week_numbers:
  "map Some (map week_number (List.map_filter (process_week e cm) ws))
     = map (input_week_number e) (filter (\<lambda>w. process_week e cm w \<noteq> None) ws)"
proof (induction ws)
  case Nil
  then show ?case by (simp add: List.map_filter_simps)
next
  case (Cons w ws)
  show ?case
  proof (cases "process_week e cm w")
    case None
    then show ?thesis using Cons by (simp add: List.map_filter_simps)
  next
    case (Some p)
    then show ?thesis using Cons process_week_Some[OF Some] by (simp add: List.map_filter_simps)
  qed
qed

lemma map_filter_length:
  "length (List.map_filter f xs) = length (filter (\<lambda>x. f x \<noteq> None) xs)"
  by (induction xs) (auto simp: List.map_filter_simps split: option.splits)

lemma validate_Some_weeks:
  "validate_monthly_roadmap (Some r) = Some r' \<Longrightarrow>
     map week_number (weeks r') = map week_number (weeks r)"
  by (auto simp: validate_monthly_roadmap_def week_number_fix_week split: if_splits)

lemma doc_weeks_contains:
  assumes "doc_weeks doc = Some ws"
  shows "py_contains doc ''weeks'' = Some True"
proof -
  from assms obtain kvs where doc: "doc = JDict kvs"
    by (cases doc) (auto simp: doc_weeks_def py_getitem_def)
  from assms doc obtain v where "map_of kvs ''weeks'' = Some v"
    by (auto simp: doc_weeks_def py_getitem_def split: Option.bind_splits)
  then have "(''weeks'', v) \<in> set kvs" by (rule map_of_SomeD)
  then have "''weeks'' \<in> fst ` set kvs" by force
  then show ?thesis using doc by (simp add: py_contains_def)
qed

lemma generate_Inr:
  assumes "generate_weekly_roadmap e p d u cm doc = Inr r"
  shows "\<exists>ws. doc_weeks doc = Some ws
            \<and> map week_number (weeks r) = map week_number (process_weeks e cm ws [])
            \<and> process_weeks e cm ws [] \<noteq> []
            \<and> py_contains doc ''weeks'' = Some True
            \<and> py_contains doc ''overall_goals'' = Some True"
  using assms
  by (auto simp: generate_weekly_roadmap_def doc_weeks_def Let_def
           split: option.splits bool.splits if_splits dest: validate_Some_weeks)

lemma generate_returns:
  assumes "doc_weeks doc = Some ws" and "process_weeks e cm ws [] \<noteq> []"
    and "py_contains doc ''overall_goals'' = Some True" and "doc_goals e doc = Some gs"
  shows "\<exists>r. generate_weekly_roadmap e p d u cm doc = Inr r"
proof -
  have w: "py_contains doc ''weeks'' = Some True" using assms(1) by (rule doc_weeks_contains)
  have v: "\<exists>r'. validate_monthly_roadmap (Some r) = Some r'" for r
    by (simp add: validate_monthly_roadmap_def)
  obtain r' where "validate_monthly_roadmap (Some
      \<lparr>user_id = u, persona_type = p, duration_months = d, requested_month = cm,
       start_date = today e + (cm - 1) * 30, end_date = today e + (cm - 1) * 30 + 30,
       weeks = process_weeks e cm ws [], overall_goals = gs\<rparr>) = Some r'"
    using v by blast
  then show ?thesis using assms w
    by (simp add: generate_weekly_roadmap_def doc_weeks_def doc_goals_def Let_def)
qed

lemma dropped_without_fields: "\<not> has_week_fields w \<Longrightarrow> process_week e cm w = None"
  using process_week_Some by (cases "process_week e cm w") auto

lemma all_dropped: "list_all (\<lambda>w. process_week e cm w = None) ws \<Longrightarrow> process_weeks e cm ws [] = []"
  by (induction ws) (simp_all add: process_weeks_map_filter List.map_filter_simps)

lemma some_survivor:
  "\<exists>w \<in> set ws. process_week e cm w \<noteq> None \<Longrightarrow> process_weeks e cm ws [] \<noteq> []"
  by (induction ws) (auto simp: process_weeks_map_filter List.map_filter_simps split: option.splits)

text \<open>
  Claim C1 (partial containment at the week level). For a parsed response with a week
  sequence: a week object that lacks one of the fields \<^verbatim>\<open>week_number\<close>, \<^verbatim>\<open>theme\<close>,
  \<^verbatim>\<open>quests\<close> is dropped; the roadmap that is returned has exactly the weeks that were
  not dropped, in their order in the response, each with the week number its week object
  carries; and dropped weeks do not stop the month: as long as one week is kept and the
  goals are readable, a roadmap is returned.
\<close>

theorem week_containment:
  assumes "doc_weeks doc = Some ws"
  shows "(\<forall>w \<in> set ws. \<not> has_week_fields w \<longrightarrow> process_week e cm w = None)
       \<and> (\<forall>r. generate_weekly_roadmap e p d u cm doc = Inr r \<longrightarrow>
             map Some (map week_number (weeks r))
               = map (input_week_number e) (filter (\<lambda>w. process_week e cm w \<noteq> None) ws)
             \<and> length (weeks r) = length (filter (\<lambda>w. process_week e cm w \<noteq> None) ws))
       \<and> ((\<exists>w \<in> set ws. process_week e cm w \<noteq> None)
            \<and> py_contains doc ''overall_goals'' = Some True \<and> doc_goals e doc \<noteq> None
            \<longrightarrow> (\<exists>r. generate_weekly_roadmap e p d u cm doc = Inr r))"
proof (intro conjI allI impI)
  show "\<forall>w \<in> set ws. \<not> has_week_fields w \<longrightarrow> process_week e cm w = None"
    using dropped_without_fields by blast
next
  fix r
  assume g: "generate_weekly_roadmap e p d u cm doc = Inr r"
  from generate_Inr[OF g] assms
  have n: "map week_number (weeks r) = map week_number (process_weeks e cm ws [])"
    by auto
  have pw: "process_weeks e cm ws [] = List.map_filter (process_week e cm) ws"
    by (simp add: process_weeks_map_filter)
  show "map Some (map week_number (weeks r))
          = map (input_week_number e) (filter (\<lambda>w. process_week e cm w \<noteq> None) ws)"
    using n pw map_filter_week_numbers[of e cm ws] by simp
  have "length (weeks r) = length (map week_number (weeks r))" by simp
  also have "\<dots> = length (List.map_filter (process_week e cm) ws)" using n pw by simp
  finally show "length (weeks r) = length (filter (\<lambda>w. process_week e cm w \<noteq> None) ws)"
    by (simp add: map_filter_length)
next
  assume h: "(\<exists>w \<in> set ws. process_week e cm w \<noteq> None)
             \<and> py_contains doc ''overall_goals'' = Some True \<and> doc_goals e doc \<noteq> None"
  then obtain gs where gs: "doc_goals e doc = Some gs" by auto
  have "process_weeks e cm ws [] \<noteq> []" using h some_survivor by blast
  then show "\<exists>r. generate_weekly_roadmap e p d u cm doc = Inr r"
    using generate_returns[OF assms _ _ gs] h by blast
qed

theorem week_containment_witness:
  "generate_weekly_roadmap example_env ''INTJ'' 1 None 1 four_weeks_doc = Inr four_weeks_roadmap
   \<and> doc_weeks four_weeks_doc
       = Some [example_week 1, example_week 2, week_without_theme 3, example_week 4]
   \<and> map week_number (weeks four_weeks_roadmap) = [1, 2, 4]
   \<and> length (weeks four_weeks_roadmap) = 3
   \<and> process_week example_env 1 (week_without_theme 3) = None"
proof -
  have g: "generate_weekly_roadmap example_env ''INTJ'' 1 None 1 four_weeks_doc
             = Inr four_weeks_roadmap"
    by code_simp
  have dw: "doc_weeks four_weeks_doc
              = Some [example_week 1, example_week 2, week_without_theme 3, example_week 4]"
    by code_simp
  have nf: "\<not> has_week_fields (week_without_theme 3)" by code_simp
  note t = week_containment[OF dw, of example_env 1 "''INTJ''" 1 None]
  from t have c: "\<forall>w \<in> set [example_week 1, example_week 2, week_without_theme 3, example_week 4].
              \<not> has_week_fields w \<longrightarrow> process_week example_env 1 w = None"
    by (rule conjunct1)
  from t g
  have a: "map Some (map week_number (weeks four_weeks_roadmap))
             = map (input_week_number example_env)
                 (filter (\<lambda>w. process_week example_env 1 w \<noteq> None)
                    [example_week 1, example_week 2, week_without_theme 3, example_week 4])"
    and b: "length (weeks four_weeks_roadmap)
             = length (filter (\<lambda>w. process_week example_env 1 w \<noteq> None)
                    [example_week 1, example_week 2, week_without_theme 3, example_week 4])"
    by blast+
  have d: "process_week example_env 1 (week_without_theme 3) = None" using c nf by simp
  have s1: "process_week example_env 1 (example_week 1) \<noteq> None" by code_simp
  have s2: "process_week example_env 1 (example_week 2) \<noteq> None" by code_simp
  have s4: "process_week example_env 1 (example_week 4) \<noteq> None" by code_simp
  have i1: "input_week_number example_env (example_week 1) = Some 1" by code_simp
  have i2: "input_week_number example_env (example_week 2) = Some 2" by code_simp
  have i4: "input_week_number example_env (example_week 4) = Some 4" by code_simp
  have "map Some (map week_number (weeks four_weeks_roadmap)) = [Some 1, Some 2, Some 4]"
    using a d s1 s2 s4 i1 i2 i4 by simp
  then have e: "map week_number (weeks four_weeks_roadmap) = [1, 2, 4]"
    by (simp add: map_eq_Cons_conv)
  have f: "length (weeks four_weeks_roadmap) = 3" using b d s1 s2 s4 by simp
  show ?thesis using g dw e f d by simp
qed

text \<open>
  Claim C2 (fatal escalation at the month level). A parsed response without \<^verbatim>\<open>weeks\<close>
  or without \<^verbatim>\<open>overall_goals\<close> makes the generation of the month raise its structure
  error; a response whose week sequence is empty, or whose weeks are all dropped, makes it
  raise the error of no valid week; and a roadmap that is returned always has a week, from
  a response that has both fields: no partial roadmap comes out of a month-level failure.
\<close>

theorem month_fatal_escalation:
  "(py_contains doc ''weeks'' = Some False
      \<longrightarrow> generate_weekly_roadmap e p d u cm doc = Inl InvalidStructure)
   \<and> (py_contains doc ''weeks'' = Some True \<and> py_contains doc ''overall_goals'' = Some False
      \<longrightarrow> generate_weekly_roadmap e p d u cm doc = Inl InvalidStructure)
   \<and> (py_contains doc ''overall_goals'' = Some True \<and> doc_weeks doc = Some ws
        \<and> list_all (\<lambda>w. process_week e cm w = None) ws
      \<longrightarrow> generate_weekly_roadmap e p d u cm doc = Inl NoValidWeeks)
   \<and> (\<forall>r. generate_weekly_roadmap e p d u cm doc = Inr r
      \<longrightarrow> weeks r \<noteq> [] \<and> py_contains doc ''weeks'' = Some True
          \<and> py_contains doc ''overall_goals'' = Some True)"
proof (intro conjI allI impI)
  assume "py_contains doc ''weeks'' = Some False"
  then show "generate_weekly_roadmap e p d u cm doc = Inl InvalidStructure"
    by (simp add: generate_weekly_roadmap_def)
next
  assume "py_contains doc ''weeks'' = Some True \<and> py_contains doc ''overall_goals'' = Some False"
  then show "generate_weekly_roadmap e p d u cm doc = Inl InvalidStructure"
    by (simp add: generate_weekly_roadmap_def)
next
  assume h: "py_contains doc ''overall_goals'' = Some True \<and> doc_weeks doc = Some ws
             \<and> list_all (\<lambda>w. process_week e cm w = None) ws"
  then have k: "py_contains doc ''weeks'' = Some True" using doc_weeks_contains by blast
  have "process_weeks e cm ws [] = []" using h all_dropped by blast
  then show "generate_weekly_roadmap e p d u cm doc = Inl NoValidWeeks"
    using h k by (simp add: generate_weekly_roadmap_def doc_weeks_def)
next
  fix r
  assume g: "generate_weekly_roadmap e p d u cm doc = Inr r"
  from generate_Inr[OF g] obtain ws' where
    n: "map week_number (weeks r) = map week_number (process_weeks e cm ws' [])"
    and ne: "process_weeks e cm ws' [] \<noteq> []"
    and k: "py_contains doc ''weeks'' = Some True"
           "py_contains doc ''overall_goals'' = Some True"
    by blast
  show "weeks r \<noteq> []" using n ne by (metis map_is_Nil_conv)
  show "py_contains doc ''weeks'' = Some True" using k by simp
  show "py_contains doc ''overall_goals'' = Some True" using k by simp
qed

theorem month_fatal_escalation_witness:
  "generate_weekly_roadmap example_env ''INTJ'' 1 None 1 empty_weeks_doc = Inl NoValidWeeks
   \<and> generate_weekly_roadmap example_env ''INTJ'' 1 None 1 missing_weeks_doc = Inl InvalidStructure
   \<and> weeks four_weeks_roadmap \<noteq> []"
proof -
  have h1: "py_contains empty_weeks_doc ''overall_goals'' = Some True
            \<and> doc_weeks empty_weeks_doc = Some []
            \<and> list_all (\<lambda>w. process_week example_env 1 w = None) []"
    by (simp add: doc_weeks_def empty_weeks_doc_def py_getitem_def py_iter_def py_contains_def)
  have h2: "py_contains missing_weeks_doc ''weeks'' = Some False" by code_simp
  have h3: "generate_weekly_roadmap example_env ''INTJ'' 1 None 1 four_weeks_doc
              = Inr four_weeks_roadmap"
    by code_simp
  from month_fatal_escalation[of empty_weeks_doc example_env "''INTJ''" 1 None 1 "[]"] h1
  have a: "generate_weekly_roadmap example_env ''INTJ'' 1 None 1 empty_weeks_doc = Inl NoValidWeeks"
    by blast
  from month_fatal_escalation[of missing_weeks_doc example_env "''INTJ''" 1 None 1 "[]"] h2
  have b: "generate_weekly_roadmap example_env ''INTJ'' 1 None 1 missing_weeks_doc
             = Inl InvalidStructure"
    by blast
  from month_fatal_escalation[of four_weeks_doc example_env "''INTJ''" 1 None 1 "[]"] h3
  have c: "weeks four_weeks_roadmap \<noteq> []" by blast
  show ?thesis using a b c by simp
qed

subsection \<open>Goals, search queries and post-validation\<close>

lemma flatten_goals_append:
  "flatten_goals kvs acc = acc @ concat (map spec_category_goals kvs)"
proof (induction kvs acc rule: flatten_goals.induct)
  case (1 acc)
  then show ?case by simp
next
  case (2 goal_type goals rest acc)
  then show ?case by (cases goals) (simp_all add: spec_category_goals_def)
qed

text \<open>
  Claim C6 (goals normalization). The goals the walker computes from \<^verbatim>\<open>overall_goals\<close>
  are the ones the specification describes: a mapping is flattened in mapping order, a
  sequence-valued category giving its elements and a string-valued category the element
  \<^verbatim>\<open><category>: <value>\<close>; a flat sequence is used as it is; any other shape gives the
  empty sequence. The mapping \<^verbatim>\<open>{"short_term": ["a","b"], "long_term": "c"}\<close> gives
  \<^verbatim>\<open>["a", "b", "long_term: c"]\<close>.
\<close>

theorem goals_normalization:
  "normalize_goals raw_goals = spec_normalize_goals raw_goals
   \<and> normalize_goals goals_doc = [JStr ''a'', JStr ''b'', JStr ''long_term: c'']"
proof
  show "normalize_goals raw_goals = spec_normalize_goals raw_goals"
    by (cases raw_goals)
       (simp_all add: normalize_goals_def spec_normalize_goals_def flatten_goals_append)
  show "normalize_goals goals_doc = [JStr ''a'', JStr ''b'', JStr ''long_term: c'']"
    by code_simp
qed



text \<open>
  Claim C10 (frame and totality of post-validation). \<^verbatim>\<open>validate_monthly_roadmap\<close>
  always returns: \<^verbatim>\<open>None\<close> for \<^verbatim>\<open>None\<close>, the roadmap itself when it has no week, and
  otherwise a roadmap that differs from the given one in the \<^verbatim>\<open>practice\<close> fields of its
  tasks at most: week numbers, task names, resources, time slots, time commitments,
  dates, persona type and overall goals are the given ones.
\<close>

theorem validate_monthly_roadmap_frame:
  "validate_monthly_roadmap None = None
   \<and> (weeks r = [] \<longrightarrow> validate_monthly_roadmap (Some r) = Some r)
   \<and> (\<exists>r'. validate_monthly_roadmap (Some r) = Some r'
          \<and> blank_roadmap r' = blank_roadmap r
          \<and> user_id r' = user_id r \<and> persona_type r' = persona_type r
          \<and> duration_months r' = duration_months r \<and> requested_month r' = requested_month r
          \<and> start_date r' = start_date r \<and> end_date r' = end_date r
          \<and> overall_goals r' = overall_goals r
          \<and> map week_number (weeks r') = map week_number (weeks r))"
proof (intro conjI)
  show "validate_monthly_roadmap None = None"
    by (simp add: validate_monthly_roadmap_def)
  show "weeks r = [] \<longrightarrow> validate_monthly_roadmap (Some r) = Some r"
    by (simp add: validate_monthly_roadmap_def)
  show "\<exists>r'. validate_monthly_roadmap (Some r) = Some r'
          \<and> blank_roadmap r' = blank_roadmap r
          \<and> user_id r' = user_id r \<and> persona_type r' = persona_type r
          \<and> duration_months r' = duration_months r \<and> requested_month r' = requested_month r
          \<and> start_date r' = start_date r \<and> end_date r' = end_date r
          \<and> overall_goals r' = overall_goals r
          \<and> map week_number (weeks r') = map week_number (weeks r)"
  proof (cases "weeks r = []")
    case True
    then show ?thesis by (simp add: validate_monthly_roadmap_def)
  next
    case False
    have "blank_roadmap (r\<lparr>weeks := map fix_week (weeks r)\<rparr>) = blank_roadmap r"
      by (simp add: blank_roadmap_def blank_fix_week)
    moreover have "map week_number (map fix_week (weeks r)) = map week_number (weeks r)"
      by (simp add: week_number_fix_week)
    ultimately show ?thesis using False by (simp add: validate_monthly_roadmap_def)
  qed
qed

theorem validate_monthly_roadmap_frame_witness:
  "validate_monthly_roadmap (Some empty_month) = Some empty_month
   \<and> (\<exists>r'. validate_monthly_roadmap (Some unformatted_month) = Some r'
          \<and> blank_roadmap r' = blank_roadmap unformatted_month
          \<and> r' \<noteq> unformatted_month)"
proof -
  have w: "weeks empty_month = []" by (simp add: empty_month_def)
  from validate_monthly_roadmap_frame[of empty_month] w
  have a: "validate_monthly_roadmap (Some empty_month) = Some empty_month" by blast
  from validate_monthly_roadmap_frame[of unformatted_month]
  obtain r' where r': "validate_monthly_roadmap (Some unformatted_month) = Some r'"
    and b: "blank_roadmap r' = blank_roadmap unformatted_month" by blast
  have "validate_monthly_roadmap (Some unformatted_month) \<noteq> Some unformatted_month"
    by code_simp
  then have "r' \<noteq> unformatted_month" using r' by auto
  then show ?thesis using a r' b by blast
qed

subsection \<open>Multi-month aggregation\<close>

lemma extend_goals_concat:
  "extend_goals rs acc = acc @ concat (map overall_goals rs)"
  by (induction rs arbitrary: acc) simp_all

lemma remdups_snoc: "remdups (ys @ [x]) = remdups (filter (\<lambda>y. y \<noteq> x) ys) @ [x]"
  by (induction ys) auto

lemma unique_loop_first_occurrences:
  "unique_loop xs seen acc = acc @ rev (remdups (rev (filter (\<lambda>x. x \<notin> seen) xs)))"
proof (induction xs arbitrary: seen acc)
  case Nil
  then show ?case by simp
next
  case (Cons x xs)
  show ?case
  proof (cases "x \<in> seen")
    case True
    then show ?thesis using Cons by simp
  next
    case False
    let ?ys = "rev (filter (\<lambda>y. y \<notin> seen) xs)"
    have f: "filter (\<lambda>y. y \<noteq> x) ?ys = rev (filter (\<lambda>y. y \<notin> insert x seen) xs)"
      by (simp add: rev_filter[symmetric] conj_commute)
    have "remdups (?ys @ [x]) = remdups (filter (\<lambda>y. y \<noteq> x) ?ys) @ [x]"
      by (rule remdups_snoc)
    then have "rev (remdups (?ys @ [x]))
                 = x # rev (remdups (rev (filter (\<lambda>y. y \<notin> insert x seen) xs)))"
      using f by simp
    moreover have "rev (filter (\<lambda>y. y \<notin> seen) (x # xs)) = ?ys @ [x]"
      using False by simp
    moreover have "unique_loop (x # xs) seen acc
                     = (acc @ [x]) @ rev (remdups (rev (filter (\<lambda>y. y \<notin> insert x seen) xs)))"
      using False Cons[of "insert x seen" "acc @ [x]"] by simp
    ultimately show ?thesis by simp
  qed
qed

lemma validated_months:
  "List.map_filter (\<lambda>r. validate_monthly_roadmap (Some r)) ms
     = map (\<lambda>r. if weeks r = [] then r else r\<lparr>weeks := map fix_week (weeks r)\<rparr>) ms"
  by (induction ms) (simp_all add: List.map_filter_simps validate_monthly_roadmap_def)

text \<open>
  Claim C7. The endpoint computes the combined goals as the claim says (the goals of the
  months in order, each kept at its first occurrence: \<^verbatim>\<open>["a","b"]\<close> and
  \<^verbatim>\<open>["b","c"]\<close> give \<^verbatim>\<open>["a","b","c"]\<close>) and takes the dates from the first and the
  last month, but the aggregate it returns does not carry the combined goals: the class
  \<^verbatim>\<open>MultiMonthRoadmap\<close> has no such field, so the constructor drops the argument and
  the result is the same whatever goals are passed.
\<close>

theorem combine_months_drops_combined_goals:
  "unique_goals rs = rev (remdups (rev (concat (map overall_goals rs))))
   \<and> unique_goals [month_with_goals 1 [''a'', ''b''], month_with_goals 2 [''b'', ''c'']]
       = [''a'', ''b'', ''c'']
   \<and> combine_months None ''INTJ'' 2
         [month_with_goals 1 [''a'', ''b''], month_with_goals 2 [''b'', ''c'']]
       = Some \<lparr>mm_user_id = None, mm_persona_type = ''INTJ'', total_months = 2,
               monthly_roadmaps =
                 [month_with_goals 1 [''a'', ''b''], month_with_goals 2 [''b'', ''c'']],
               mm_start_date = 0, mm_end_date = 60\<rparr>
   \<and> combine_months uid persona n ms
       = (if ms = [] then None
          else Some (MultiMonthRoadmap uid persona n
                  (List.map_filter (\<lambda>r. validate_monthly_roadmap (Some r)) ms) []
                  (start_date (hd ms)) (end_date (last ms))))"
proof (intro conjI)
  show "unique_goals rs = rev (remdups (rev (concat (map overall_goals rs))))"
    by (simp add: unique_goals_def unique_loop_first_occurrences extend_goals_concat)
  show "unique_goals [month_with_goals 1 [''a'', ''b''], month_with_goals 2 [''b'', ''c'']]
          = [''a'', ''b'', ''c'']"
    by code_simp
  show "combine_months None ''INTJ'' 2
          [month_with_goals 1 [''a'', ''b''], month_with_goals 2 [''b'', ''c'']]
        = Some \<lparr>mm_user_id = None, mm_persona_type = ''INTJ'', total_months = 2,
                monthly_roadmaps =
                  [month_with_goals 1 [''a'', ''b''], month_with_goals 2 [''b'', ''c'']],
                mm_start_date = 0, mm_end_date = 60\<rparr>"
    by code_simp
  show "combine_months uid persona n ms
          = (if ms = [] then None
             else Some (MultiMonthRoadmap uid persona n
                     (List.map_filter (\<lambda>r. validate_monthly_roadmap (Some r)) ms) []
                     (start_date (hd ms)) (end_date (last ms))))"
  proof (cases "ms = []")
    case True
    then show ?thesis by (simp add: combine_months_def List.map_filter_simps)
  next
    case False
    then show ?thesis
      by (simp add: combine_months_def validated_months MultiMonthRoadmap_def Let_def
                    hd_map last_map)
  qed
qed

subsection \<open>The resilient JSON parser\<close>

text \<open>
  Claim C5 (round-trip short-circuit). For every text that \<^verbatim>\<open>json.loads\<close> accepts,
  \<^verbatim>\<open>safe_parse_json\<close> returns the document of that parse and hands nothing else to the
  parser: neither sanitizer runs. It raises its error exactly when the direct parse, the
  parse of the sanitized text and the parse of the text rebuilt line by line have all
  failed; otherwise it returns the document of the first of the three that succeeds.
\<close>

theorem safe_parse_json_cascade:
  "(loads s = Some doc \<longrightarrow> safe_parse_json_steps loads s = ([s], Inr doc))
   \<and> (safe_parse_json loads s = Inl ValueError
        \<longleftrightarrow> loads s = None \<and> loads (sanitize_json_string s) = None
            \<and> loads (sanitize_line_by_line s) = None)
   \<and> (safe_parse_json loads s = Inr doc
        \<longleftrightarrow> loads s = Some doc
            \<or> loads s = None \<and> loads (sanitize_json_string s) = Some doc
            \<or> loads s = None \<and> loads (sanitize_json_string s) = None
                \<and> loads (sanitize_line_by_line s) = Some doc)"
  by (auto simp: safe_parse_json_def safe_parse_json_steps_def Let_def split: option.splits)

theorem safe_parse_json_cascade_witness:
  "safe_parse_json_steps loads_empty_object ''{}'' = ([''{}''], Inr (JDict []))
   \<and> safe_parse_json loads_empty_object [CHR ''{'', CHR 0x07, CHR ''}''] = Inr (JDict [])
   \<and> safe_parse_json loads_empty_object ''[]'' = Inl ValueError"
proof -
  have l: "loads_empty_object ''{}'' = Some (JDict [])" by (simp add: loads_empty_object_def)
  from safe_parse_json_cascade[of loads_empty_object "''{}''" "JDict []"] l
  have a: "safe_parse_json_steps loads_empty_object ''{}'' = ([''{}''], Inr (JDict []))"
    by blast
  have b: "safe_parse_json loads_empty_object [CHR ''{'', CHR 0x07, CHR ''}''] = Inr (JDict [])"
    by code_simp
  have c: "safe_parse_json loads_empty_object ''[]'' = Inl ValueError" by code_simp
  show ?thesis using a b c by simp
qed

end
